theory Spec2Isabelle
  imports Main
begin

section \<open>Data model of BinaryTree.hpp\<close>

text \<open>
  \<^verbatim>\<open>struct Node { T element; Node<T>* left; Node<T>* right; }\<close>.
  A node is owned by exactly one parent link (or by \<open>root\<close>) and the destructor of a node
  deletes both children, so the node graph below a pointer is a finite tree.  A value of type
  \<open>'a node\<close> is what a \<^verbatim>\<open>Node<T>*\<close> points at: \<open>Nullptr\<close> for the null pointer.
\<close>

datatype 'a node = Nullptr | Node (element: 'a) (left: "'a node") (right: "'a node")

text \<open>The class fields \<^verbatim>\<open>Node<T>* root; int treeSize;\<close>.  The counter is an unbounded
  integer here: the model does not cover trees of more than \<open>2^31 - 1\<close> nodes.\<close>

record 'a BinaryTree =
  root :: "'a node"
  treeSize :: int

text \<open>What the C++ leaves undefined: reading through a null pointer, and \<^verbatim>\<open>front()\<close> of an
  empty \<^verbatim>\<open>std::queue\<close>.\<close>

datatype error = NullDereference | EmptyQueueFront

text \<open>
  The loops of \<open>insert\<close>, \<open>remove\<close> and of the constructors keep pointers to nodes and write
  through them later.  Such a pointer is the position of the node: the list of child links
  followed from \<open>root\<close>.  \<open>node_at\<close> reads the pointer stored at a position, \<open>store\<close> assigns
  the pointer stored there (dropping what it owned before, as \<^verbatim>\<open>delete\<close> does), and
  \<open>assign_element\<close> is \<^verbatim>\<open>p->element = v\<close>.
\<close>

datatype link = LeftLink | RightLink

type_synonym path = "link list"

fun node_at :: "'a node \<Rightarrow> path \<Rightarrow> 'a node" where
  "node_at t [] = t"
| "node_at Nullptr (d # p) = Nullptr"
| "node_at (Node x l r) (LeftLink # p) = node_at l p"
| "node_at (Node x l r) (RightLink # p) = node_at r p"

fun store :: "path \<Rightarrow> 'a node \<Rightarrow> 'a node \<Rightarrow> 'a node" where
  "store [] n t = n"
| "store (d # p) n Nullptr = Nullptr"
| "store (LeftLink # p) n (Node x l r) = Node x (store p n l) r"
| "store (RightLink # p) n (Node x l r) = Node x l (store p n r)"

fun assign_element :: "path \<Rightarrow> 'a \<Rightarrow> 'a node \<Rightarrow> 'a node" where
  "assign_element p v Nullptr = Nullptr"
| "assign_element [] v (Node x l r) = Node v l r"
| "assign_element (LeftLink # p) v (Node x l r) = Node x (assign_element p v l) r"
| "assign_element (RightLink # p) v (Node x l r) = Node x l (assign_element p v r)"

fun count_nodes :: "'a node \<Rightarrow> nat" where
  "count_nodes Nullptr = 0"
| "count_nodes (Node x l r) = 1 + count_nodes l + count_nodes r"

text \<open>The non-null children of a node, left before right, each with its position: what one
  iteration of a level-order loop pushes on its queue.\<close>

fun children :: "path \<times> 'a node \<Rightarrow> (path \<times> 'a node) list" where
  "children (p, Nullptr) = []"
| "children (p, Node x l r) =
     (if l \<noteq> Nullptr then [(p @ [LeftLink], l)] else []) @
     (if r \<noteq> Nullptr then [(p @ [RightLink], r)] else [])"

definition queued :: "(path \<times> 'a node) list \<Rightarrow> nat" where
  "queued q = sum_list (map (\<lambda>pn. count_nodes (snd pn)) q)"

lemma queued_simps [simp]:
  "queued [] = 0"
  "queued (pn # q) = count_nodes (snd pn) + queued q"
  "queued (q @ q') = queued q + queued q'"
  by (simp_all add: queued_def)

section \<open>Constructors\<close>

definition BinaryTree_new :: "'a BinaryTree" where
  "BinaryTree_new = \<lparr>root = Nullptr, treeSize = 0\<rparr>"

definition clear :: "'a BinaryTree \<Rightarrow> 'a BinaryTree" where
  "clear t = t\<lparr>root := Nullptr, treeSize := 0\<rparr>"

text \<open>
  The loop of the copy constructor.  \<open>treeQueue\<close> holds the links of the new tree still to be
  filled (\<^verbatim>\<open>Node<T>**\<close>), \<open>copyTreeQueue\<close> the source nodes to clone.  The constructor pushes
  \<open>copyTree.root\<close> without a test, so the second queue can hold the null pointer.
\<close>

function copy_loop ::
  "path list \<Rightarrow> 'a node list \<Rightarrow> 'a node \<Rightarrow> int \<Rightarrow> error + ('a node \<times> int)" where
  "copy_loop treeQueue [] rt n = Inr (rt, n)"
| "copy_loop [] (copyNode # copyTreeQueue) rt n = Inl EmptyQueueFront"
| "copy_loop (currentNode # treeQueue) (Nullptr # copyTreeQueue) rt n = Inl NullDereference"
| "copy_loop (currentNode # treeQueue) (Node x l r # copyTreeQueue) rt n =
     copy_loop
       (treeQueue @ (if l \<noteq> Nullptr then [currentNode @ [LeftLink]] else [])
                  @ (if r \<noteq> Nullptr then [currentNode @ [RightLink]] else []))
       (copyTreeQueue @ (if l \<noteq> Nullptr then [l] else [])
                      @ (if r \<noteq> Nullptr then [r] else []))
       (store currentNode (Node x Nullptr Nullptr) rt)
       (n + 1)"
  by pat_completeness auto
termination
  by (relation "measure (\<lambda>(tq, cq, rt, n). sum_list (map count_nodes cq))") auto

definition copy_construct :: "'a BinaryTree \<Rightarrow> error + 'a BinaryTree" where
  "copy_construct copyTree =
     (case copy_loop [[]] [root copyTree] Nullptr 0 of
        Inl err \<Rightarrow> Inl err
      | Inr (rt, n) \<Rightarrow> Inr \<lparr>root = rt, treeSize = n\<rparr>)"

text \<open>The move constructor runs the same loop (moving each element instead of copying it) and
  then clears its argument.  The result is the new tree and the argument afterwards.\<close>

definition move_construct :: "'a BinaryTree \<Rightarrow> error + ('a BinaryTree \<times> 'a BinaryTree)" where
  "move_construct moveTree =
     (case copy_loop [[]] [root moveTree] Nullptr 0 of
        Inl err \<Rightarrow> Inl err
      | Inr (rt, n) \<Rightarrow> Inr (\<lparr>root = rt, treeSize = n\<rparr>, clear moveTree))"

section \<open>insert\<close>

datatype 'a loop_exit = Returned | Broke "'a node" | Exhausted

function insert_loop ::
  "'a \<Rightarrow> (path \<times> 'a node) list \<Rightarrow> 'a node \<Rightarrow> error + 'a loop_exit" where
  "insert_loop e [] rt = Inr Exhausted"
| "insert_loop e ((p, Nullptr) # treeQueue) rt = Inl NullDereference"
| "insert_loop e ((p, Node x l r) # treeQueue) rt =
     (case l of
        Nullptr \<Rightarrow> Inr (Broke (store (p @ [LeftLink]) (Node e Nullptr Nullptr) rt))
      | Node lx ll lr \<Rightarrow>
          if lx = e then Inr Returned
          else (case r of
             Nullptr \<Rightarrow> Inr (Broke (store (p @ [RightLink]) (Node e Nullptr Nullptr) rt))
           | Node rx rl rr \<Rightarrow>
               if rx = e then Inr Returned
               else insert_loop e (treeQueue @ [(p @ [LeftLink], l), (p @ [RightLink], r)]) rt))"
  by pat_completeness auto
termination
  by (relation "measure (\<lambda>(e, q, rt). queued q)") auto

definition insert_bt :: "'a \<Rightarrow> 'a BinaryTree \<Rightarrow> error + 'a BinaryTree" where
  "insert_bt e t =
     (case root t of
        Nullptr \<Rightarrow> Inr (t\<lparr>root := Node e Nullptr Nullptr, treeSize := treeSize t + 1\<rparr>)
      | Node x l r \<Rightarrow>
          if x = e then Inr t
          else (case insert_loop e [([], root t)] (root t) of
             Inl err \<Rightarrow> Inl err
           | Inr Returned \<Rightarrow> Inr t
           | Inr (Broke rt) \<Rightarrow> Inr (t\<lparr>root := rt, treeSize := treeSize t + 1\<rparr>)
           | Inr Exhausted \<Rightarrow> Inr (t\<lparr>treeSize := treeSize t + 1\<rparr>)))"

section \<open>bfsearch and dfsearch\<close>

text \<open>The two searches only read, so their queue and stack hold the nodes pointed at.\<close>

function bfs_loop :: "'a \<Rightarrow> 'a node list \<Rightarrow> error + bool" where
  "bfs_loop e [] = Inr False"
| "bfs_loop e (Nullptr # treeQueue) = Inl NullDereference"
| "bfs_loop e (Node x l r # treeQueue) =
     (if x = e then Inr True
      else bfs_loop e (treeQueue @ (if l \<noteq> Nullptr then [l] else [])
                                 @ (if r \<noteq> Nullptr then [r] else [])))"
  by pat_completeness auto
termination
  by (relation "measure (\<lambda>(e, q). sum_list (map count_nodes q))") auto

definition bfsearch :: "'a \<Rightarrow> 'a BinaryTree \<Rightarrow> error + bool" where
  "bfsearch e t = (if root t = Nullptr then Inr False else bfs_loop e [root t])"

function dfs_loop :: "'a \<Rightarrow> 'a node list \<Rightarrow> 'a node \<Rightarrow> error + bool" where
  "dfs_loop e treeStack (Node x l r) = dfs_loop e (Node x l r # treeStack) l"
| "dfs_loop e [] Nullptr = Inr False"
| "dfs_loop e (Nullptr # treeStack) Nullptr = Inl NullDereference"
| "dfs_loop e (Node x l r # treeStack) Nullptr =
     (if x = e then Inr True else dfs_loop e treeStack r)"
  by pat_completeness auto
termination
  by (relation "measure (\<lambda>(e, st, cur).
        sum_list (map (\<lambda>n. 1 + 2 * count_nodes (right n)) st) + 2 * count_nodes cur)") auto

definition dfsearch :: "'a \<Rightarrow> 'a BinaryTree \<Rightarrow> error + bool" where
  "dfsearch e t =
     (case root t of Nullptr \<Rightarrow> Inr False | Node x l r \<Rightarrow> dfs_loop e [root t] l)"

section \<open>remove\<close>

text \<open>The single level-order pass of \<open>remove\<close>; it returns \<open>(deepestParent, deleteNode)\<close>.\<close>

function remove_loop ::
  "'a \<Rightarrow> (path \<times> 'a node) list \<Rightarrow> path option \<Rightarrow> path option
     \<Rightarrow> error + (path option \<times> path option)" where
  "remove_loop e [] deepestParent deleteNode = Inr (deepestParent, deleteNode)"
| "remove_loop e ((p, Nullptr) # treeQueue) deepestParent deleteNode = Inl NullDereference"
| "remove_loop e ((p, Node x l r) # treeQueue) deepestParent deleteNode =
     remove_loop e (treeQueue @ children (p, Node x l r))
       (if l \<noteq> Nullptr \<or> r \<noteq> Nullptr then Some p else deepestParent)
       (if x = e then Some p else deleteNode)"
  by pat_completeness auto
termination
  by (relation "measure (\<lambda>(e, q, dp, dn). queued q)") auto

text \<open>The tail of \<open>remove\<close>: overwrite the element of \<open>deleteNode\<close> with that of the chosen child
  of \<open>deepestParent\<close>, clear the link to that child and delete it.\<close>

definition excise :: "path \<Rightarrow> path \<Rightarrow> 'a BinaryTree \<Rightarrow> error + 'a BinaryTree" where
  "excise deepestParent deleteNode t =
     (case (node_at (root t) deepestParent, node_at (root t) deleteNode) of
        (Node px pl pr, Node dx dl dr) \<Rightarrow>
          (case pr of
             Node v vl vr \<Rightarrow>
               Inr (t\<lparr>root := store (deepestParent @ [RightLink]) Nullptr
                                 (assign_element deleteNode v (root t)),
                      treeSize := treeSize t - 1\<rparr>)
           | Nullptr \<Rightarrow>
               (case pl of
                  Node v vl vr \<Rightarrow>
                    Inr (t\<lparr>root := store (deepestParent @ [LeftLink]) Nullptr
                                      (assign_element deleteNode v (root t)),
                           treeSize := treeSize t - 1\<rparr>)
                | Nullptr \<Rightarrow> Inl NullDereference))
      | _ \<Rightarrow> Inl NullDereference)"

definition remove :: "'a \<Rightarrow> 'a BinaryTree \<Rightarrow> error + 'a BinaryTree" where
  "remove e t =
     (if root t = Nullptr then Inr t
      else (case remove_loop e [([], root t)] None None of
         Inl err \<Rightarrow> Inl err
       | Inr (deepestParent, deleteNode) \<Rightarrow>
           (case deleteNode of
              None \<Rightarrow> Inr t
            | Some dn \<Rightarrow>
                (case deepestParent of
                   None \<Rightarrow> Inr (clear t)
                 | Some dp \<Rightarrow> excise dp dn t))))"

section \<open>size, empty, depth, height, invertTree\<close>

definition size_bt :: "'a BinaryTree \<Rightarrow> int" where
  "size_bt t = treeSize t"

definition empty_bt :: "'a BinaryTree \<Rightarrow> bool" where
  "empty_bt t = (treeSize t = 0)"

fun getDepth :: "'a node \<Rightarrow> 'a \<Rightarrow> int \<Rightarrow> int" where
  "getDepth Nullptr e d = - 1"
| "getDepth (Node x l r) e d =
     (if x = e then d
      else (let leftDepth = getDepth l e (d + 1);
                rightDepth = getDepth r e (d + 1)
            in if leftDepth < rightDepth then rightDepth else leftDepth))"

definition depth :: "'a \<Rightarrow> 'a BinaryTree \<Rightarrow> int" where
  "depth e t =
     (case root t of
        Nullptr \<Rightarrow> - 1
      | Node x l r \<Rightarrow>
          if x = e then 0
          else (let leftDepth = getDepth l e 1;
                    rightDepth = getDepth r e 1
                in if leftDepth < rightDepth then rightDepth else leftDepth))"

fun getHeight :: "'a node \<Rightarrow> 'a \<Rightarrow> int \<Rightarrow> bool \<Rightarrow> int" where
  "getHeight Nullptr e h elementFound = (if \<not> elementFound then - 1 else h)"
| "getHeight (Node x l r) e h elementFound =
     (let h' = (if elementFound then h + 1 else h);
          elementFound' = (elementFound \<or> x = e);
          leftHeight = getHeight l e h' elementFound';
          rightHeight = getHeight r e h' elementFound'
      in if leftHeight < rightHeight then rightHeight else leftHeight)"

definition height :: "'a \<Rightarrow> 'a BinaryTree \<Rightarrow> int" where
  "height e t = (if root t = Nullptr then - 1 else getHeight (root t) e 0 False)"

fun invert :: "'a node \<Rightarrow> 'a node" where
  "invert Nullptr = Nullptr"
| "invert (Node x l r) = Node x (invert r) (invert l)"

definition invertTree :: "'a BinaryTree \<Rightarrow> 'a BinaryTree" where
  "invertTree t = t\<lparr>root := invert (root t)\<rparr>"

section \<open>swap and the assignment operators\<close>

text \<open>\<open>swap this other\<close> returns the two objects afterwards, \<open>this\<close> first.\<close>

definition swap :: "'a BinaryTree \<Rightarrow> 'a BinaryTree \<Rightarrow> 'a BinaryTree \<times> 'a BinaryTree" where
  "swap this other =
     (this\<lparr>root := root other, treeSize := treeSize other\<rparr>,
      other\<lparr>root := root this, treeSize := treeSize this\<rparr>)"

text \<open>Copy assignment: \<^verbatim>\<open>BinaryTree<T> tempTree(copyTree); tempTree.swap(*this);\<close>;
  the result is \<open>*this\<close> afterwards.\<close>

definition copy_assign :: "'a BinaryTree \<Rightarrow> 'a BinaryTree \<Rightarrow> error + 'a BinaryTree" where
  "copy_assign this copyTree =
     (case copy_construct copyTree of
        Inl err \<Rightarrow> Inl err
      | Inr tempTree \<Rightarrow> Inr (snd (swap tempTree this)))"

text \<open>Move assignment between two different objects: \<^verbatim>\<open>this->clear(); moveTree.swap(*this);\<close>;
  the result is \<open>(*this, moveTree)\<close> afterwards.  On the same object it returns at once.\<close>

definition move_assign :: "'a BinaryTree \<Rightarrow> 'a BinaryTree \<Rightarrow> 'a BinaryTree \<times> 'a BinaryTree" where
  "move_assign this moveTree = (let (m, t) = swap moveTree (clear this) in (t, m))"

section \<open>Calling sequences and the trees of the scenarios\<close>

text \<open>A client calling \<open>insert\<close> once per element of a list, in order.\<close>

fun insert_all :: "'a list \<Rightarrow> 'a BinaryTree \<Rightarrow> error + 'a BinaryTree" where
  "insert_all [] t = Inr t"
| "insert_all (x # xs) t =
     (case insert_bt x t of Inl err \<Rightarrow> Inl err | Inr t' \<Rightarrow> insert_all xs t')"

definition tree12345 :: "int BinaryTree" where
  "tree12345 =
     \<lparr>root = Node 1 (Node 2 (Node 4 Nullptr Nullptr) (Node 5 Nullptr Nullptr))
                     (Node 3 Nullptr Nullptr),
      treeSize = 5\<rparr>"

section \<open>The two searches\<close>

lemma bfs_loop_correct:
  "Nullptr \<notin> set q \<Longrightarrow> bfs_loop e q = Inr (\<exists>n\<in>set q. e \<in> set_node n)"
  by (induction e q rule: bfs_loop.induct) auto

lemma dfs_loop_correct:
  "Nullptr \<notin> set st \<Longrightarrow>
   dfs_loop e st cur =
     Inr (e \<in> set_node cur \<or> (\<exists>n\<in>set st. e = element n \<or> e \<in> set_node (right n)))"
  by (induction e st cur rule: dfs_loop.induct) auto

lemma bfsearch_correct: "bfsearch e t = Inr (e \<in> set_node (root t))"
  by (cases "root t") (auto simp add: bfsearch_def bfs_loop_correct)

lemma dfsearch_correct: "dfsearch e t = Inr (e \<in> set_node (root t))"
  by (cases "root t") (auto simp add: dfsearch_def dfs_loop_correct)

text \<open>
  Claim C9 (search agreement).  For every tree and every element, \<open>bfsearch\<close> and \<open>dfsearch\<close>
  return without error and return the same answer: true exactly when the element is stored at
  some node of the tree.  On the empty tree both return false.
\<close>

theorem search_agreement:
  "bfsearch e t = dfsearch e t \<and>
   bfsearch e t = Inr (e \<in> set_node (root t)) \<and>
   dfsearch e t = Inr (e \<in> set_node (root t)) \<and>
   bfsearch e BinaryTree_new = Inr False \<and>
   dfsearch e BinaryTree_new = Inr False"
  by (simp add: bfsearch_correct dfsearch_correct BinaryTree_new_def)

theorem search_agreement_witness:
  "bfsearch 5 tree12345 = Inr True \<and> dfsearch 5 tree12345 = Inr True \<and>
   bfsearch 7 tree12345 = Inr False \<and> dfsearch 7 tree12345 = Inr False"
  using search_agreement [of 5 tree12345] search_agreement [of 7 tree12345]
  by (simp add: tree12345_def)

section \<open>The scenario of the five inserts\<close>

text \<open>
  Claim C7.  Inserting 1, 2, 3, 4, 5 in that order into an empty tree gives root 1 with left
  child 2 and right child 3, and 2 with left child 4 and right child 5; on that tree
  \<open>depth(5) = 2\<close>, \<open>height(1) = 2\<close>, \<open>bfsearch(4)\<close> is true and \<open>dfsearch(6)\<close> is false.
\<close>

theorem insert_scenario:
  "insert_all [1, 2, 3, 4, 5] BinaryTree_new = Inr tree12345 \<and>
   depth 5 tree12345 = 2 \<and>
   height 1 tree12345 = 2 \<and>
   bfsearch 4 tree12345 = Inr True \<and>
   dfsearch 6 tree12345 = Inr False"
  by (simp add: insert_bt_def BinaryTree_new_def tree12345_def depth_def height_def
        bfsearch_def dfsearch_def)

theorem insert_scenario_witness:
  "size_bt tree12345 = 5 \<and> depth 5 tree12345 = 2"
  using insert_scenario by (simp add: size_bt_def tree12345_def)

section \<open>Level order\<close>

text \<open>
  Level order is the breadth-first enumeration of the nodes from a queue of start nodes, each
  node before the nodes pushed after it and the left child of a node before its right child.
  Every entry is a node with its position.
\<close>

lemma queued_children: "queued (children (p, Node x l r)) = count_nodes l + count_nodes r"
  by simp

function level_order :: "(path \<times> 'a node) list \<Rightarrow> (path \<times> 'a node) list" where
  "level_order [] = []"
| "level_order (pn # q) = pn # level_order (q @ children pn)"
  by pat_completeness auto
termination
proof (relation "measures [queued, length]")
  fix pn :: "path \<times> 'a node" and q
  show "(q @ children pn, pn # q) \<in> measures [queued, length]"
    by (cases pn, cases "snd pn") auto
qed simp

text \<open>The position of the last entry with a property, or a default when there is none.\<close>

definition last_where ::
  "(path \<times> 'a node \<Rightarrow> bool) \<Rightarrow> (path \<times> 'a node) list \<Rightarrow> path option \<Rightarrow> path option" where
  "last_where P xs d = (if filter P xs = [] then d else Some (fst (last (filter P xs))))"

lemma last_where_Nil [simp]: "last_where P [] d = d"
  by (simp add: last_where_def)

lemma last_where_Cons:
  "last_where P (pn # xs) d = last_where P xs (if P pn then Some (fst pn) else d)"
  by (simp add: last_where_def)

definition non_null :: "(path \<times> 'a node) list \<Rightarrow> bool" where
  "non_null q = (\<forall>pn\<in>set q. snd pn \<noteq> Nullptr)"

lemma non_null_children: "non_null (children pn)"
  by (cases pn, cases "snd pn") (auto simp: non_null_def)

lemma non_null_simps [simp]:
  "non_null []"
  "non_null (pn # q) = (snd pn \<noteq> Nullptr \<and> non_null q)"
  "non_null (q @ q') = (non_null q \<and> non_null q')"
  by (auto simp: non_null_def)

lemma children_nonempty_iff:
  "children (p, Node x l r) \<noteq> [] \<longleftrightarrow> l \<noteq> Nullptr \<or> r \<noteq> Nullptr"
  by simp

lemma remove_loop_level_order:
  "non_null q \<Longrightarrow>
   remove_loop e q dp dn =
     Inr (last_where (\<lambda>pn. children pn \<noteq> []) (level_order q) dp,
          last_where (\<lambda>pn. element (snd pn) = e) (level_order q) dn)"
proof (induction e q dp dn rule: remove_loop.induct)
  case (1 e dp dn)
  then show ?case by simp
next
  case (2 e p q dp dn)
  then show ?case by simp
next
  case (3 e p x l r q dp dn)
  have nn: "non_null (q @ children (p, Node x l r))"
    using 3 non_null_children[of "(p, Node x l r)"] by simp
  show ?case
    using 3(1)[OF nn]
    by (simp add: last_where_Cons del: children.simps) (simp)
qed

lemma level_order_fixpoint: "level_order q = q @ concat (map children (level_order q))"
proof (induction q rule: level_order.induct)
  case 1
  then show ?case by simp
next
  case (2 pn q)
  have "level_order (pn # q) = pn # level_order (q @ children pn)" by simp
  also have "\<dots> = pn # (q @ children pn) @ concat (map children (level_order (q @ children pn)))"
    using 2 by simp
  also have "\<dots> = (pn # q) @ concat (map children (level_order (pn # q)))" by simp
  finally show ?case .
qed

lemma node_at_append: "node_at t (p @ p') = node_at (node_at t p) p'"
  by (induction t p rule: node_at.induct) (simp_all, (cases p'; simp))


definition positioned :: "'a node \<Rightarrow> (path \<times> 'a node) list \<Rightarrow> bool" where
  "positioned rt q = (\<forall>pn\<in>set q. node_at rt (fst pn) = snd pn \<and> snd pn \<noteq> Nullptr)"

lemma positioned_simps [simp]:
  "positioned rt []"
  "positioned rt (pn # q) = (node_at rt (fst pn) = snd pn \<and> snd pn \<noteq> Nullptr \<and> positioned rt q)"
  "positioned rt (q @ q') = (positioned rt q \<and> positioned rt q')"
  by (auto simp: positioned_def)

lemma positioned_children:
  "node_at rt (fst pn) = snd pn \<Longrightarrow> positioned rt (children pn)"
  by (cases pn, cases "snd pn") (auto simp: node_at_append)

lemma positioned_level_order: "positioned rt q \<Longrightarrow> positioned rt (level_order q)"
  by (induction q rule: level_order.induct) (simp_all add: positioned_children)

lemma last_concat_map:
  "concat (map f xs) \<noteq> [] \<Longrightarrow>
   last (concat (map f xs)) = last (f (last (filter (\<lambda>x. f x \<noteq> []) xs)))"
  by (induction xs rule: rev_induct) auto

lemma filter_nonempty_concat:
  "filter (\<lambda>x. f x \<noteq> []) xs \<noteq> [] \<longleftrightarrow> concat (map f xs) \<noteq> []"
  by (induction xs) auto

lemma last_filter_last: "xs \<noteq> [] \<Longrightarrow> P (last xs) \<Longrightarrow> last (filter P xs) = last xs"
  by (induction xs rule: rev_induct) auto

lemma fst_last_children:
  "children pn \<noteq> [] \<Longrightarrow> length (fst (last (children pn))) = Suc (length (fst pn))"
  by (cases pn, cases "snd pn") auto

text \<open>The child that remove takes from deepestParent: the right one if present, else the left.\<close>

definition chosen_child :: "path \<times> 'a node \<Rightarrow> path \<times> 'a node" where
  "chosen_child pn =
     (if right (snd pn) \<noteq> Nullptr then (fst pn @ [RightLink], right (snd pn))
      else (fst pn @ [LeftLink], left (snd pn)))"

lemma last_children_chosen: "children pn \<noteq> [] \<Longrightarrow> last (children pn) = chosen_child pn"
  by (cases pn, cases "snd pn") (auto simp: chosen_child_def)

lemma level_order_last:
  assumes "children ([], rt) \<noteq> []"
  defines "lo \<equiv> level_order [([], rt)]"
  defines "ps \<equiv> filter (\<lambda>pn. children pn \<noteq> []) lo"
  shows "ps \<noteq> []" and "last lo = chosen_child (last ps)" and "children (last lo) = []"
    and "children (last ps) \<noteq> []"
proof -
  have fx: "lo = ([], rt) # concat (map children lo)"
    unfolding lo_def using level_order_fixpoint[of "[([], rt)]"] by simp
  have hd: "([], rt) \<in> set lo" unfolding lo_def by simp
  show ne: "ps \<noteq> []"
    unfolding ps_def using hd assms(1) by (auto simp: filter_empty_conv)
  then have cne: "concat (map children lo) \<noteq> []"
    unfolding ps_def by (simp add: filter_nonempty_concat)
  have "last lo = last (concat (map children lo))"
    using fx cne by (metis last_ConsR)
  also have "\<dots> = last (children (last ps))"
    unfolding ps_def using cne by (rule last_concat_map)
  finally have ll: "last lo = last (children (last ps))" .
  show pc: "children (last ps) \<noteq> []"
    using last_in_set[OF ne] unfolding ps_def by simp
  then show "last lo = chosen_child (last ps)"
    using ll by (simp add: last_children_chosen)
  show "children (last lo) = []"
  proof (rule ccontr)
    assume c: "children (last lo) \<noteq> []"
    have "lo \<noteq> []" using hd by auto
    then have "last ps = last lo"
      unfolding ps_def using c by (simp add: last_filter_last)
    then have "length (fst (last lo)) = Suc (length (fst (last lo)))"
      using ll fst_last_children[OF c] by simp
    then show False by simp
  qed
qed


section \<open>What remove returns\<close>

lemma set_node_node_at: "set_node (node_at t p) \<subseteq> set_node t"
  by (induction t p rule: node_at.induct) auto

lemma level_order_elements:
  "non_null q \<Longrightarrow>
   (\<lambda>pn. element (snd pn)) ` set (level_order q) = (\<Union>pn\<in>set q. set_node (snd pn))"
proof (induction q rule: level_order.induct)
  case 1
  then show ?case by simp
next
  case (2 pn q)
  obtain p x l r where pn: "pn = (p, Node x l r)"
    using 2(2) by (cases pn, cases "snd pn") auto
  have nn: "non_null (q @ children pn)"
    using 2(2) non_null_children[of pn] by simp
  have "(\<Union>pn\<in>set (children (p, Node x l r)). set_node (snd pn)) = set_node l \<union> set_node r"
    by auto
  then show ?case
    using 2(1)[OF nn] by (auto simp add: pn image_Un simp del: children.simps)
qed

lemma last_where_None:
  "last_where P xs None = None \<longleftrightarrow> (\<forall>x\<in>set xs. \<not> P x)"
  by (auto simp: last_where_def filter_empty_conv)

lemma remove_absent: "e \<notin> set_node (root t) \<Longrightarrow> remove e t = Inr t"
proof (cases "root t = Nullptr")
  case True
  then show ?thesis by (simp add: remove_def)
next
  case False
  assume a: "e \<notin> set_node (root t)"
  have nn: "non_null [([], root t)]" using False by simp
  have "\<forall>pn\<in>set (level_order [([], root t)]). element (snd pn) \<noteq> e"
    using level_order_elements[OF nn] a by auto
  then have "last_where (\<lambda>pn. element (snd pn) = e) (level_order [([], root t)]) None = None"
    by (simp add: last_where_None)
  then show ?thesis
    using False by (simp add: remove_def remove_loop_level_order[OF nn])
qed

lemma remove_single: "root t = Node x Nullptr Nullptr \<Longrightarrow> remove x t = Inr (clear t)"
  by (simp add: remove_def)

lemma remove_present:
  assumes e: "e \<in> set_node (root t)" and c: "children ([], root t) \<noteq> []"
  defines "lo \<equiv> level_order [([], root t)]"
  shows "remove e t =
     Inr (t\<lparr>root := store (fst (last lo)) Nullptr
                 (assign_element (fst (last (filter (\<lambda>pn. element (snd pn) = e) lo)))
                    (element (snd (last lo))) (root t)),
            treeSize := treeSize t - 1\<rparr>)"
proof -
  let ?ps = "filter (\<lambda>pn. children pn \<noteq> []) lo"
  let ?ts = "filter (\<lambda>pn. element (snd pn) = e) lo"
  have rn: "root t \<noteq> Nullptr" using c by auto
  then have nn: "non_null [([], root t)]" by simp
  have pos: "positioned (root t) lo"
    unfolding lo_def using rn by (intro positioned_level_order) simp
  note ll = level_order_last[OF c, folded lo_def]
  have "e \<in> (\<lambda>pn. element (snd pn)) ` set lo"
    unfolding lo_def using level_order_elements[OF nn] e by simp
  then have tne: "?ts \<noteq> []" by (auto simp: filter_empty_conv)
  have tin: "last ?ts \<in> set lo" using last_in_set[OF tne] by simp
  have pin: "last ?ps \<in> set lo" using last_in_set[OF ll(1)] by simp
  have loop: "remove_loop e [([], root t)] None None = Inr (Some (fst (last ?ps)), Some (fst (last ?ts)))"
    using ll(1) tne by (simp add: remove_loop_level_order[OF nn] last_where_def lo_def)
  obtain dx dl dr where dn: "node_at (root t) (fst (last ?ts)) = Node dx dl dr"
    using pos tin unfolding positioned_def by (metis node.exhaust)
  obtain px pl pr where dp: "node_at (root t) (fst (last ?ps)) = Node px pl pr"
    and sp: "snd (last ?ps) = Node px pl pr"
    using pos pin unfolding positioned_def by (metis node.exhaust)
  have ch: "children (fst (last ?ps), Node px pl pr) \<noteq> []"
    using ll(4) sp by (metis prod.collapse)
  have cc: "last lo = chosen_child (fst (last ?ps), Node px pl pr)"
    using ll(2) sp by (metis prod.collapse)
  show ?thesis
  proof (cases pr)
    case Nullptr
    then obtain v vl vr where pl: "pl = Node v vl vr"
      using ch by (cases pl) auto
    show ?thesis
      using rn loop dn dp Nullptr pl cc
      by (simp add: remove_def excise_def chosen_child_def)
  next
    case (Node v vl vr)
    show ?thesis
      using rn loop dn dp Node cc
      by (simp add: remove_def excise_def chosen_child_def)
  qed
qed

section \<open>Elements that are not in the tree\<close>

lemma getDepth_absent: "e \<notin> set_node n \<Longrightarrow> getDepth n e d = - 1"
  by (induction n arbitrary: d) (auto simp add: Let_def)

lemma getHeight_absent: "e \<notin> set_node n \<Longrightarrow> getHeight n e h False = - 1"
  by (induction n arbitrary: h) (auto simp add: Let_def)

lemma depth_absent: "e \<notin> set_node (root t) \<Longrightarrow> depth e t = - 1"
  by (cases "root t") (auto simp add: depth_def getDepth_absent Let_def)

lemma height_absent: "e \<notin> set_node (root t) \<Longrightarrow> height e t = - 1"
  by (simp add: height_def getHeight_absent)

text \<open>
  Claim C8 (absence is not an error).  For every tree and every element not stored in it,
  \<open>bfsearch\<close> and \<open>dfsearch\<close> return false, \<open>remove\<close> returns the tree as it was (same nodes,
  same elements, same size), and \<open>depth\<close> and \<open>height\<close> return -1.  On the empty tree \<open>depth\<close>
  and \<open>height\<close> return -1 as well: the same value as for an element that is not found.
\<close>

theorem absence_is_not_an_error:
  "(e \<notin> set_node (root t) \<longrightarrow>
      bfsearch e t = Inr False \<and> dfsearch e t = Inr False \<and> remove e t = Inr t \<and>
      depth e t = - 1 \<and> height e t = - 1) \<and>
   (root t = Nullptr \<longrightarrow> depth e t = - 1 \<and> height e t = - 1)"
  by (auto simp add: bfsearch_correct dfsearch_correct remove_absent depth_absent height_absent)

theorem absence_is_not_an_error_witness:
  "bfsearch 6 tree12345 = Inr False \<and> dfsearch 6 tree12345 = Inr False \<and>
   remove 6 tree12345 = Inr tree12345 \<and> depth 6 tree12345 = - 1 \<and> height 6 tree12345 = - 1 \<and>
   depth (6::int) BinaryTree_new = - 1 \<and> height (6::int) BinaryTree_new = - 1"
  using absence_is_not_an_error [of 6 tree12345] absence_is_not_an_error [of "6::int" BinaryTree_new]
  by (simp add: tree12345_def BinaryTree_new_def)

section \<open>The node that remove takes out\<close>

lemma count_assign_element [simp]: "count_nodes (assign_element p v t) = count_nodes t"
  by (induction p v t rule: assign_element.induct) simp_all

lemma node_at_Cons:
  "node_at (Node x l r) (d # p) = node_at (case d of LeftLink \<Rightarrow> l | RightLink \<Rightarrow> r) p"
  by (cases d) simp_all

lemma count_node_at_assign [simp]:
  "count_nodes (node_at (assign_element q v t) p) = count_nodes (node_at t p)"
proof (induction q v t arbitrary: p rule: assign_element.induct)
  case (1 q v)
  then show ?case by simp
next
  case (2 v x l r)
  then show ?case by (cases p) (simp_all add: node_at_Cons split: link.splits)
next
  case (3 q v x l r)
  then show ?case by (cases p) (simp_all add: node_at_Cons split: link.splits)
next
  case (4 q v x l r)
  then show ?case by (cases p) (simp_all add: node_at_Cons split: link.splits)
qed

lemma count_nodes_0 [simp]: "count_nodes n = 0 \<longleftrightarrow> n = Nullptr"
  by (cases n) simp_all

lemma count_nodes_pos [simp]: "0 < count_nodes n \<longleftrightarrow> n \<noteq> Nullptr"
  by (cases n) simp_all

lemma count_store_child:
  "node_at rt p \<noteq> Nullptr \<Longrightarrow>
   count_nodes (store (p @ [d]) n rt) + count_nodes (node_at rt (p @ [d]))
     = count_nodes rt + count_nodes n"
proof (induction rt p rule: node_at.induct)
  case (1 t)
  then show ?case by (cases t; cases d) simp_all
qed simp_all

lemma more_than_one_node: "1 < count_nodes rt \<longleftrightarrow> children ([], rt) \<noteq> []"
  by (cases rt) auto

lemma childless_leaf: "n \<noteq> Nullptr \<Longrightarrow> children (p, n) = [] \<Longrightarrow> count_nodes n = 1"
  by (cases n) (auto split: if_splits)

lemma chosen_child_path:
  "fst (chosen_child pn) = fst pn @ [if right (snd pn) \<noteq> Nullptr then RightLink else LeftLink]"
  by (simp add: chosen_child_def)

lemma excised_leaf:
  assumes c: "children ([], rt) \<noteq> []"
  defines "lo \<equiv> level_order [([], rt)]"
  shows "node_at rt (fst (last lo)) = snd (last lo)"
    and "\<exists>v. snd (last lo) = Node v Nullptr Nullptr"
    and "count_nodes (store (fst (last lo)) Nullptr (assign_element q v rt)) + 1 = count_nodes rt"
proof -
  let ?ps = "filter (\<lambda>pn. children pn \<noteq> []) lo"
  have rn: "rt \<noteq> Nullptr" using c by auto
  have pos: "positioned rt lo"
    unfolding lo_def using rn by (intro positioned_level_order) simp
  note ll = level_order_last[OF c, folded lo_def]
  have lne: "lo \<noteq> []" unfolding lo_def by simp
  have lin: "last lo \<in> set lo" using lne by simp
  have pin: "last ?ps \<in> set lo" using last_in_set[OF ll(1)] by simp
  show at: "node_at rt (fst (last lo)) = snd (last lo)"
    using pos lin unfolding positioned_def by blast
  have nn: "snd (last lo) \<noteq> Nullptr"
    using pos lin unfolding positioned_def by blast
  have "children (fst (last lo), snd (last lo)) = []" using ll(3) by simp
  then have one: "count_nodes (snd (last lo)) = 1"
    using nn childless_leaf by blast
  then show "\<exists>v. snd (last lo) = Node v Nullptr Nullptr"
    by (cases "snd (last lo)") auto
  have pn: "node_at rt (fst (last ?ps)) \<noteq> Nullptr"
    using pos pin unfolding positioned_def by metis
  then have pn': "node_at (assign_element q v rt) (fst (last ?ps)) \<noteq> Nullptr"
    by (metis count_node_at_assign count_nodes_0)
  obtain d where pd: "fst (last lo) = fst (last ?ps) @ [d]"
    using ll(2) by (simp add: chosen_child_path)
  have "count_nodes (node_at (assign_element q v rt) (fst (last lo))) = 1"
    using one at by simp
  then show "count_nodes (store (fst (last lo)) Nullptr (assign_element q v rt)) + 1 = count_nodes rt"
    using count_store_child[OF pn', of d Nullptr] pd by simp
qed


lemma target_holds:
  assumes e: "e \<in> set_node rt"
  defines "lo \<equiv> level_order [([], rt)]"
  defines "target \<equiv> last (filter (\<lambda>pn. element (snd pn) = e) lo)"
  shows "node_at rt (fst target) = snd target" and "snd target \<noteq> Nullptr"
    and "element (snd target) = e"
proof -
  let ?ts = "filter (\<lambda>pn. element (snd pn) = e) lo"
  have rn: "rt \<noteq> Nullptr" using e by auto
  then have nn: "non_null [([], rt)]" by simp
  have pos: "positioned rt lo"
    unfolding lo_def using rn by (intro positioned_level_order) simp
  have "e \<in> (\<lambda>pn. element (snd pn)) ` set lo"
    unfolding lo_def using level_order_elements[OF nn] e by simp
  then have tne: "?ts \<noteq> []" by (auto simp: filter_empty_conv)
  have tin: "target \<in> set lo \<and> element (snd target) = e"
    unfolding target_def using last_in_set[OF tne] by simp
  then show "element (snd target) = e" by simp
  show "node_at rt (fst target) = snd target" "snd target \<noteq> Nullptr"
    using pos tin unfolding positioned_def by blast+
qed

text \<open>The trees of the two remove scenarios.\<close>

definition tree1534 :: "int BinaryTree" where
  "tree1534 =
     \<lparr>root = Node 1 (Node 5 (Node 4 Nullptr Nullptr) Nullptr) (Node 3 Nullptr Nullptr),
      treeSize = 4\<rparr>"

definition tree1 :: "int BinaryTree" where
  "tree1 = \<lparr>root = Node 1 Nullptr Nullptr, treeSize = 1\<rparr>"

text \<open>
  Claim C1.  On a tree of more than one node that stores \<open>e\<close>, \<open>remove e\<close> returns the tree in
  which the element of the last node in level order has been copied into the node holding \<open>e\<close>
  (the last such node in level order, should there be several), the link to that last node has
  been cleared, and the size is one less.  On the tree of the five inserts \<open>remove 2\<close> gives
  root 1 with left child 5 and right child 3, and 5 with left child 4, of size 4.  On the tree
  holding only 1, \<open>remove 1\<close> gives the empty tree: size 0 and \<open>empty\<close> true.
\<close>

theorem remove_replaces_with_last:
  "(e \<in> set_node (root t) \<and> 1 < count_nodes (root t) \<longrightarrow>
      (let lo = level_order [([], root t)];
           target = last (filter (\<lambda>pn. element (snd pn) = e) lo);
           lastn = last lo;
           t' = t\<lparr>root := store (fst lastn) Nullptr
                              (assign_element (fst target) (element (snd lastn)) (root t)),
                   treeSize := treeSize t - 1\<rparr>
       in remove e t = Inr t' \<and>
          node_at (root t) (fst target) = snd target \<and> element (snd target) = e \<and>
          node_at (root t) (fst lastn) = snd lastn \<and> snd lastn \<noteq> Nullptr \<and>
          size_bt t' = size_bt t - 1)) \<and>
   remove 2 tree12345 = Inr tree1534 \<and> size_bt tree1534 = 4 \<and>
   insert_all [1] BinaryTree_new = Inr tree1 \<and>
   remove 1 tree1 = Inr BinaryTree_new \<and>
   size_bt (BinaryTree_new :: int BinaryTree) = 0 \<and> empty_bt (BinaryTree_new :: int BinaryTree)"
proof -
  have general: "remove e t =
      Inr (t\<lparr>root := store (fst (last (level_order [([], root t)]))) Nullptr
                 (assign_element
                    (fst (last (filter (\<lambda>pn. element (snd pn) = e) (level_order [([], root t)]))))
                    (element (snd (last (level_order [([], root t)])))) (root t)),
             treeSize := treeSize t - 1\<rparr>)"
    "node_at (root t) (fst (last (filter (\<lambda>pn. element (snd pn) = e) (level_order [([], root t)]))))
           = snd (last (filter (\<lambda>pn. element (snd pn) = e) (level_order [([], root t)])))"
    "element (snd (last (filter (\<lambda>pn. element (snd pn) = e) (level_order [([], root t)])))) = e"
    "node_at (root t) (fst (last (level_order [([], root t)]))) = snd (last (level_order [([], root t)]))"
    "snd (last (level_order [([], root t)])) \<noteq> Nullptr"
    if "e \<in> set_node (root t)" "1 < count_nodes (root t)"
  proof -
    have c: "children ([], root t) \<noteq> []" using that(2) more_than_one_node by blast
    show "remove e t =
      Inr (t\<lparr>root := store (fst (last (level_order [([], root t)]))) Nullptr
                 (assign_element
                    (fst (last (filter (\<lambda>pn. element (snd pn) = e) (level_order [([], root t)]))))
                    (element (snd (last (level_order [([], root t)])))) (root t)),
             treeSize := treeSize t - 1\<rparr>)"
      by (rule remove_present[OF that(1) c])
    show "node_at (root t) (fst (last (filter (\<lambda>pn. element (snd pn) = e) (level_order [([], root t)]))))
           = snd (last (filter (\<lambda>pn. element (snd pn) = e) (level_order [([], root t)])))"
      by (rule target_holds(1)[OF that(1)])
    show "element (snd (last (filter (\<lambda>pn. element (snd pn) = e) (level_order [([], root t)])))) = e"
      by (rule target_holds(3)[OF that(1)])
    show "node_at (root t) (fst (last (level_order [([], root t)]))) = snd (last (level_order [([], root t)]))"
      by (rule excised_leaf(1)[OF c])
    show "snd (last (level_order [([], root t)])) \<noteq> Nullptr"
      using excised_leaf(2)[OF c] by auto
  qed
  have s1: "remove 2 tree12345 = Inr tree1534"
    by (simp add: remove_def excise_def tree12345_def tree1534_def)
  have s2: "insert_all [1] BinaryTree_new = Inr tree1"
    by (simp add: insert_bt_def BinaryTree_new_def tree1_def)
  have s3: "remove 1 tree1 = Inr BinaryTree_new"
    by (simp add: remove_def clear_def BinaryTree_new_def tree1_def)
  have g: "e \<in> set_node (root t) \<and> 1 < count_nodes (root t) \<longrightarrow>
      (let lo = level_order [([], root t)];
           target = last (filter (\<lambda>pn. element (snd pn) = e) lo);
           lastn = last lo;
           t' = t\<lparr>root := store (fst lastn) Nullptr
                              (assign_element (fst target) (element (snd lastn)) (root t)),
                   treeSize := treeSize t - 1\<rparr>
       in remove e t = Inr t' \<and>
          node_at (root t) (fst target) = snd target \<and> element (snd target) = e \<and>
          node_at (root t) (fst lastn) = snd lastn \<and> snd lastn \<noteq> Nullptr \<and>
          size_bt t' = size_bt t - 1)"
  proof (intro impI, elim conjE)
    assume a: "e \<in> set_node (root t)" and b: "1 < count_nodes (root t)"
    show "let lo = level_order [([], root t)];
           target = last (filter (\<lambda>pn. element (snd pn) = e) lo);
           lastn = last lo;
           t' = t\<lparr>root := store (fst lastn) Nullptr
                              (assign_element (fst target) (element (snd lastn)) (root t)),
                   treeSize := treeSize t - 1\<rparr>
       in remove e t = Inr t' \<and>
          node_at (root t) (fst target) = snd target \<and> element (snd target) = e \<and>
          node_at (root t) (fst lastn) = snd lastn \<and> snd lastn \<noteq> Nullptr \<and>
          size_bt t' = size_bt t - 1"
      unfolding Let_def using general[OF a b]
      by (simp add: size_bt_def del: level_order.simps)
  qed
  have s4: "size_bt tree1534 = 4"
    by (simp add: size_bt_def tree1534_def)
  have s5: "size_bt (BinaryTree_new :: int BinaryTree) = 0 \<and> empty_bt (BinaryTree_new :: int BinaryTree)"
    by (simp add: size_bt_def empty_bt_def BinaryTree_new_def)
  show ?thesis
    using g s1 s2 s3 s4 s5 by blast
qed

theorem remove_replaces_with_last_witness:
  "remove 3 tree12345 =
     Inr \<lparr>root = Node 1 (Node 2 (Node 4 Nullptr Nullptr) Nullptr) (Node 5 Nullptr Nullptr),
           treeSize = 4\<rparr>"
proof -
  have lo: "level_order [([], root tree12345)] =
      [([], root tree12345),
       ([LeftLink], Node 2 (Node 4 Nullptr Nullptr) (Node 5 Nullptr Nullptr)),
       ([RightLink], Node 3 Nullptr Nullptr),
       ([LeftLink, LeftLink], Node 4 Nullptr Nullptr),
       ([LeftLink, RightLink], Node 5 Nullptr Nullptr)]"
    by (simp add: tree12345_def)
  have h: "3 \<in> set_node (root tree12345) \<and> 1 < count_nodes (root tree12345)"
    by (simp add: tree12345_def)
  show ?thesis
    using remove_replaces_with_last [of 3 tree12345] h
    unfolding lo Let_def by (simp add: tree12345_def)
qed


text \<open>Level order goes level by level: the depth of the entries never decreases, so the last
  entry lies on the deepest level.\<close>

lemma depth_children:
  "pn' \<in> set (children pn) \<Longrightarrow> length (fst pn') = Suc (length (fst pn))"
  by (cases pn, cases "snd pn") (auto split: if_splits)

lemma level_order_by_depth:
  "sorted (map (\<lambda>pn. length (fst pn)) q) \<Longrightarrow>
   \<forall>pn\<in>set q. length (fst pn) \<le> Suc (length (fst (hd q))) \<Longrightarrow>
   sorted (map (\<lambda>pn. length (fst pn)) (level_order q))"
proof (induction q rule: level_order.induct)
  case 1
  then show ?case by simp
next
  case (2 pn q)
  let ?d = "\<lambda>pn. length (fst pn)"
  let ?q = "q @ children pn"
  have ge: "\<forall>a\<in>set q. ?d pn \<le> ?d a" and sq: "sorted (map ?d q)"
    using 2(2) by simp_all
  have le: "\<forall>a\<in>set q. ?d a \<le> Suc (?d pn)" using 2(3) by simp
  have ch: "\<forall>c\<in>set (children pn). ?d c = Suc (?d pn)"
    using depth_children by blast
  have sc: "sorted (map ?d (children pn))"
    by (cases pn, cases "snd pn") auto
  have "\<forall>a\<in>set q. \<forall>c\<in>set (children pn). ?d a \<le> ?d c"
    using le by (simp add: depth_children del: children.simps)
  then have s: "sorted (map ?d ?q)"
    using sq sc by (simp add: sorted_append del: children.simps)
  have b: "\<forall>a\<in>set ?q. ?d a \<le> Suc (?d (hd ?q))"
  proof (cases q)
    case Nil
    have "?d a \<le> Suc (?d (hd (children pn)))" if a: "a \<in> set (children pn)" for a
    proof -
      have "children pn \<noteq> []" using a by auto
      then have "hd (children pn) \<in> set (children pn)" by (rule hd_in_set)
      then have "?d (hd (children pn)) = Suc (?d pn)" by (rule depth_children)
      moreover have "?d a = Suc (?d pn)" using a by (rule depth_children)
      ultimately show ?thesis by simp
    qed
    then show ?thesis using Nil by (simp del: children.simps)
  next
    case (Cons a q')
    then have "?d pn \<le> ?d a" using ge by simp
    moreover have "hd ?q = a" using Cons by simp
    moreover have "?d x \<le> Suc (?d pn)" if "x \<in> set ?q" for x
    proof -
      from that consider "x \<in> set q" | "x \<in> set (children pn)" by auto
      then show ?thesis
      proof cases
        case 1
        then show ?thesis using le by blast
      next
        case 2
        then show ?thesis using ch by simp
      qed
    qed
    ultimately show ?thesis by fastforce
  qed
  have ih: "sorted (map ?d (level_order ?q))" by (rule 2(1)[OF s b])
  have low: "\<forall>a\<in>set ?q. ?d pn \<le> ?d a"
  proof
    fix x assume "x \<in> set ?q"
    then consider "x \<in> set q" | "x \<in> set (children pn)" by auto
    then show "?d pn \<le> ?d x"
    proof cases
      case 1
      then show ?thesis using ge by blast
    next
      case 2
      then show ?thesis using ch by simp
    qed
  qed
  have "\<forall>a\<in>set (level_order ?q). ?d pn \<le> ?d a"
  proof (cases ?q)
    case Nil
    then show ?thesis by simp
  next
    case (Cons a q')
    then have h: "level_order ?q = a # level_order (q' @ children a)" by simp
    have "?d pn \<le> ?d a" using low Cons by simp
    moreover have "\<forall>c\<in>set (level_order (q' @ children a)). ?d a \<le> ?d c"
      using ih unfolding h by simp
    ultimately show ?thesis unfolding h by auto
  qed
  then show ?case using ih by simp
qed

lemma last_deepest:
  assumes "rt \<noteq> Nullptr" and "pn \<in> set (level_order [([], rt)])"
  shows "length (fst pn) \<le> length (fst (last (level_order [([], rt)])))"
proof -
  let ?lo = "level_order [([], rt)]"
  have s: "sorted (map (\<lambda>pn. length (fst pn)) ?lo)"
    by (rule level_order_by_depth) simp_all
  obtain k where k: "k < length ?lo" "?lo ! k = pn"
    using assms(2) in_set_conv_nth by metis
  have ne: "?lo \<noteq> []" by simp
  have "map (\<lambda>pn. length (fst pn)) ?lo ! k \<le> map (\<lambda>pn. length (fst pn)) ?lo ! (length ?lo - 1)"
    using s k(1) by (intro sorted_nth_mono) simp_all
  then show ?thesis
    using k ne by (simp add: last_conv_nth del: level_order.simps)
qed

text \<open>
  Claim C10.  For every tree of more than one node, of any shape: the pass of \<open>remove\<close> ends
  with \<open>deepestParent\<close> at the last node in level order that has a child; the child it takes
  from that node (the right one if present, else the left one) is the last node in level order
  and has no children; no node lies deeper.  Hence, when the element is in the tree, \<open>remove\<close> clears the link to that
  one node and the tree has exactly one node less.
\<close>

theorem excised_node_is_last_leaf:
  "1 < count_nodes rt \<longrightarrow>
     (let lo = level_order [([], rt)];
          parent = last (filter (\<lambda>pn. children pn \<noteq> []) lo);
          victim = chosen_child parent
      in (\<exists>dn. remove_loop e [([], rt)] None None = Inr (Some (fst parent), dn)) \<and>
         victim = last lo \<and>
         node_at rt (fst victim) = snd victim \<and>
         (\<exists>v. snd victim = Node v Nullptr Nullptr) \<and>
         (\<forall>pn\<in>set lo. length (fst pn) \<le> length (fst victim)) \<and>
         (e \<in> set_node rt \<longrightarrow>
            (\<exists>t' w. remove e \<lparr>root = rt, treeSize = n\<rparr> = Inr t' \<and>
                    root t' = store (fst victim) Nullptr w \<and>
                    count_nodes w = count_nodes rt \<and>
                    count_nodes (root t') + 1 = count_nodes rt)))"
proof (intro impI)
  assume "1 < count_nodes rt"
  then have c: "children ([], rt) \<noteq> []"
    using more_than_one_node by blast
  define lo where "lo = level_order [([], rt)]"
  define parent where "parent = last (filter (\<lambda>pn. children pn \<noteq> []) lo)"
  define victim where "victim = chosen_child parent"
  note ll = level_order_last[OF c, folded lo_def]
  have rn: "rt \<noteq> Nullptr" using c by auto
  then have nn: "non_null [([], rt)]" by simp
  have v: "victim = last lo"
    unfolding victim_def parent_def using ll(2) by simp
  have loop: "\<exists>dn. remove_loop e [([], rt)] None None = Inr (Some (fst parent), dn)"
    using ll(1) by (simp add: remove_loop_level_order[OF nn] last_where_def lo_def parent_def)
  have at: "node_at rt (fst victim) = snd victim"
    unfolding v lo_def by (rule excised_leaf(1)[OF c])
  have leaf: "\<exists>v. snd victim = Node v Nullptr Nullptr"
    unfolding v lo_def by (rule excised_leaf(2)[OF c])
  have deep: "\<forall>pn\<in>set lo. length (fst pn) \<le> length (fst victim)"
    unfolding v lo_def using last_deepest[OF rn] by blast
  have rem: "\<exists>t' w. remove e \<lparr>root = rt, treeSize = n\<rparr> = Inr t' \<and>
                    root t' = store (fst victim) Nullptr w \<and>
                    count_nodes w = count_nodes rt \<and>
                    count_nodes (root t') + 1 = count_nodes rt" if e: "e \<in> set_node rt"
  proof -
    let ?w = "assign_element (fst (last (filter (\<lambda>pn. element (snd pn) = e) lo)))
                (element (snd (last lo))) rt"
    have "remove e \<lparr>root = rt, treeSize = n\<rparr> =
            Inr \<lparr>root = store (fst victim) Nullptr ?w, treeSize = n - 1\<rparr>"
      using remove_present[of e "\<lparr>root = rt, treeSize = n\<rparr>"] e c
      unfolding v lo_def by simp
    moreover have "count_nodes (store (fst victim) Nullptr ?w) + 1 = count_nodes rt"
      unfolding v lo_def by (rule excised_leaf(3)[OF c])
    moreover have "count_nodes ?w = count_nodes rt" by simp
    ultimately show ?thesis
      by (intro exI[of _ "\<lparr>root = store (fst victim) Nullptr ?w, treeSize = n - 1\<rparr>"]
                exI[of _ ?w]) simp
  qed
  show "let lo = level_order [([], rt)];
          parent = last (filter (\<lambda>pn. children pn \<noteq> []) lo);
          victim = chosen_child parent
      in (\<exists>dn. remove_loop e [([], rt)] None None = Inr (Some (fst parent), dn)) \<and>
         victim = last lo \<and>
         node_at rt (fst victim) = snd victim \<and>
         (\<exists>v. snd victim = Node v Nullptr Nullptr) \<and>
         (\<forall>pn\<in>set lo. length (fst pn) \<le> length (fst victim)) \<and>
         (e \<in> set_node rt \<longrightarrow>
            (\<exists>t' w. remove e \<lparr>root = rt, treeSize = n\<rparr> = Inr t' \<and>
                    root t' = store (fst victim) Nullptr w \<and>
                    count_nodes w = count_nodes rt \<and>
                    count_nodes (root t') + 1 = count_nodes rt))"
    unfolding Let_def
    using loop v at leaf deep rem
    unfolding victim_def parent_def lo_def by blast
qed

text \<open>A tree that is not complete: the mirror image of the tree of four inserts.\<close>

definition tree1324_inverted :: "int BinaryTree" where
  "tree1324_inverted =
     \<lparr>root = Node 1 (Node 3 Nullptr Nullptr) (Node 2 Nullptr (Node 4 Nullptr Nullptr)),
      treeSize = 4\<rparr>"

theorem excised_node_is_last_leaf_witness:
  "invertTree \<lparr>root = Node 1 (Node 2 (Node 4 Nullptr Nullptr) Nullptr) (Node 3 Nullptr Nullptr),
                treeSize = 4\<rparr> = tree1324_inverted \<and>
   chosen_child ([RightLink], Node 2 Nullptr (Node 4 Nullptr Nullptr))
     = ([RightLink, RightLink], Node (4::int) Nullptr Nullptr) \<and>
   (\<exists>t'. remove 3 tree1324_inverted = Inr t' \<and> count_nodes (root t') + 1 = 4)"
proof -
  have lo: "level_order [([], root tree1324_inverted)] =
      [([], root tree1324_inverted),
       ([LeftLink], Node 3 Nullptr Nullptr),
       ([RightLink], Node 2 Nullptr (Node 4 Nullptr Nullptr)),
       ([RightLink, RightLink], Node 4 Nullptr Nullptr)]"
    by (simp add: tree1324_inverted_def)
  have h: "1 < count_nodes (root tree1324_inverted) \<and> 3 \<in> set_node (root tree1324_inverted)"
    by (simp add: tree1324_inverted_def)
  have t: "\<lparr>root = root tree1324_inverted, treeSize = 4\<rparr> = tree1324_inverted"
    by (simp add: tree1324_inverted_def)
  have "\<exists>t'. remove 3 tree1324_inverted = Inr t' \<and> count_nodes (root t') + 1 = 4"
    using excised_node_is_last_leaf [of "root tree1324_inverted" 3 4] h
    unfolding lo Let_def t by (auto simp add: tree1324_inverted_def)
  then show ?thesis
    by (simp add: invertTree_def tree1324_inverted_def chosen_child_def)
qed

section \<open>The copy and move constructors\<close>

text \<open>Two positions neither of which lies below the other.\<close>

fun indep :: "path \<Rightarrow> path \<Rightarrow> bool" where
  "indep [] q = False"
| "indep (d # p) [] = False"
| "indep (d # p) (d' # q) = (d \<noteq> d' \<or> indep p q)"

lemma indep_sym: "indep p q \<Longrightarrow> indep q p"
  by (induction p q rule: indep.induct) auto

lemma indep_append: "indep p q \<Longrightarrow> indep (p @ s) q"
  by (induction p q rule: indep.induct) auto

lemma indep_siblings: "indep (p @ [LeftLink]) (p @ [RightLink])"
  by (induction p) auto

lemma store_commute:
  "indep p q \<Longrightarrow> store p a (store q b t) = store q b (store p a t)"
proof (induction p q arbitrary: t rule: indep.induct)
  case (3 d p d' q)
  show ?case
  proof (cases t)
    case Nullptr
    then show ?thesis by simp
  next
    case (Node x l r)
    show ?thesis
    proof (cases "d = d'")
      case True
      then have i: "indep p q" using 3(2) by simp
      show ?thesis
        using True Node 3(1)[OF i, of l] 3(1)[OF i, of r]
        by (cases d) simp_all
    next
      case False
      then show ?thesis using Node by (cases d; cases d') simp_all
    qed
  qed
qed simp_all

lemma store_below: "store (p @ s) a (store p b t) = store p (store s a b) t"
  by (induction p b t rule: store.induct) simp_all

text \<open>Storing a whole subtree at each position of a list, in order.\<close>

fun fill :: "(path \<times> 'a node) list \<Rightarrow> 'a node \<Rightarrow> 'a node" where
  "fill [] t = t"
| "fill (pn # q) t = fill q (store (fst pn) (snd pn) t)"

lemma fill_append: "fill (q @ q') t = fill q' (fill q t)"
  by (induction q arbitrary: t) simp_all

lemma fill_store_commute:
  "\<forall>pn\<in>set q. indep p (fst pn) \<Longrightarrow> fill q (store p a t) = store p a (fill q t)"
proof (induction q arbitrary: t)
  case Nil
  then show ?case by simp
next
  case (Cons pn q)
  have "indep p (fst pn)" using Cons.prems by simp
  then have "indep (fst pn) p" by (rule indep_sym)
  then have "store (fst pn) (snd pn) (store p a t) = store p a (store (fst pn) (snd pn) t)"
    by (rule store_commute)
  then show ?case using Cons by simp
qed

lemma fill_commute:
  "\<forall>pn\<in>set ch. \<forall>qn\<in>set q. indep (fst pn) (fst qn) \<Longrightarrow>
   fill ch (fill q s) = fill q (fill ch s)"
proof (induction ch arbitrary: s)
  case Nil
  then show ?case by simp
next
  case (Cons pn ch)
  have "store (fst pn) (snd pn) (fill q s) = fill q (store (fst pn) (snd pn) s)"
    using Cons.prems by (intro fill_store_commute[symmetric]) simp
  then show ?case using Cons by simp
qed

fun all_indep :: "path list \<Rightarrow> bool" where
  "all_indep [] = True"
| "all_indep (p # ps) = ((\<forall>q\<in>set ps. indep p q) \<and> all_indep ps)"

lemma all_indep_append:
  "all_indep (ps @ qs) \<longleftrightarrow> all_indep ps \<and> all_indep qs \<and> (\<forall>p\<in>set ps. \<forall>q\<in>set qs. indep p q)"
  by (induction ps) auto

lemma fst_children: "pn' \<in> set (children pn) \<Longrightarrow> \<exists>d. fst pn' = fst pn @ [d]"
  by (cases pn, cases "snd pn") (auto split: if_splits)

lemma all_indep_children: "all_indep (map fst (children pn))"
  by (cases pn, cases "snd pn") (auto simp: indep_siblings)

lemma fill_children:
  "fill (children (p, Node x l r)) (store p (Node x Nullptr Nullptr) t) = store p (Node x l r) t"
  by (cases "l = Nullptr"; cases "r = Nullptr") (simp_all add: store_below)

lemma map_fst_children:
  "map fst (children (p, Node x l r)) =
     (if l \<noteq> Nullptr then [p @ [LeftLink]] else []) @ (if r \<noteq> Nullptr then [p @ [RightLink]] else [])"
  by simp

lemma map_snd_children:
  "map snd (children (p, Node x l r)) =
     (if l \<noteq> Nullptr then [l] else []) @ (if r \<noteq> Nullptr then [r] else [])"
  by simp


lemma copy_loop_fill:
  "non_null q \<Longrightarrow> all_indep (map fst q) \<Longrightarrow>
   copy_loop (map fst q) (map snd q) rt n = Inr (fill q rt, n + int (queued q))"
proof (induction "queued q" arbitrary: q rt n rule: less_induct)
  case less
  show ?case
  proof (cases q)
    case Nil
    then show ?thesis by simp
  next
    case (Cons pn q')
    obtain p x l r where pn: "pn = (p, Node x l r)"
      using less.prems(1) Cons by (cases pn, cases "snd pn") auto
    let ?ch = "children (p, Node x l r)"
    let ?rt = "store p (Node x Nullptr Nullptr) rt"
    have ip: "\<forall>pn'\<in>set q'. indep p (fst pn')" and iq: "all_indep (map fst q')"
      using less.prems(2) Cons pn by auto
    have cross: "\<forall>a\<in>set (map fst q'). \<forall>b\<in>set (map fst ?ch). indep a b"
    proof (intro ballI)
      fix a b assume a: "a \<in> set (map fst q')" and b: "b \<in> set (map fst ?ch)"
      from b obtain d where "b = p @ [d]" using fst_children[of _ "(p, Node x l r)"] by auto
      moreover have "indep p a" using ip a by auto
      ultimately show "indep a b" using indep_append indep_sym by blast
    qed
    have ind: "all_indep (map fst (q' @ ?ch))"
      using iq cross all_indep_children[of "(p, Node x l r)"]
      by (simp add: all_indep_append del: children.simps)
    have nn: "non_null (q' @ ?ch)"
      using less.prems(1) Cons non_null_children[of "(p, Node x l r)"] by simp
    have sm: "queued (q' @ ?ch) < queued q"
      using Cons pn by simp
    have step: "copy_loop (map fst q) (map snd q) rt n =
                copy_loop (map fst (q' @ ?ch)) (map snd (q' @ ?ch)) ?rt (n + 1)"
      unfolding Cons pn map_append map_fst_children map_snd_children by simp
    have chq: "\<forall>pn'\<in>set ?ch. \<forall>qn\<in>set q'. indep (fst pn') (fst qn)"
      using cross indep_sym by (metis image_eqI list.set_map)
    have comm: "fill ?ch (fill q' ?rt) = fill q' (fill ?ch ?rt)"
      by (rule fill_commute[OF chq])
    have "copy_loop (map fst q) (map snd q) rt n =
            Inr (fill (q' @ ?ch) ?rt, n + 1 + int (queued (q' @ ?ch)))"
      unfolding step using less.hyps[OF sm nn ind] .
    also have "fill (q' @ ?ch) ?rt = fill q' (store p (Node x l r) rt)"
      unfolding fill_append comm fill_children ..
    also have "\<dots> = fill q rt" using Cons pn by simp
    also have "n + 1 + int (queued (q' @ ?ch)) = n + int (queued q)"
      using Cons pn by simp
    finally show ?thesis .
  qed
qed

lemma copy_construct_result:
  "copy_construct t =
     (if root t = Nullptr then Inl NullDereference
      else Inr \<lparr>root = root t, treeSize = int (count_nodes (root t))\<rparr>)"
proof (cases "root t = Nullptr")
  case True
  then show ?thesis by (simp add: copy_construct_def)
next
  case False
  then show ?thesis
    using copy_loop_fill[of "[([], root t)]" Nullptr 0]
    by (simp add: copy_construct_def)
qed

lemma move_construct_result:
  "move_construct t =
     (if root t = Nullptr then Inl NullDereference
      else Inr (\<lparr>root = root t, treeSize = int (count_nodes (root t))\<rparr>, clear t))"
proof (cases "root t = Nullptr")
  case True
  then show ?thesis by (simp add: move_construct_def)
next
  case False
  then show ?thesis
    using copy_loop_fill[of "[([], root t)]" Nullptr 0]
    by (simp add: move_construct_def)
qed

text \<open>
  Claim C5 (round-trip copy).  Copy-constructing from a non-empty tree returns a tree with the
  same nodes in the same places and with the number of nodes as its size; trees are values here,
  so clearing the source afterwards leaves the copy as it is.  Copy-constructing from the empty
  tree does not return: the loop reads \<open>copyNode->element\<close> through the null root.
\<close>

theorem copy_construct_round_trip:
  "copy_construct (BinaryTree_new :: 'a BinaryTree) = Inl NullDereference \<and>
   (root A \<noteq> Nullptr \<longrightarrow>
      copy_construct A = Inr \<lparr>root = root A, treeSize = int (count_nodes (root A))\<rparr> \<and>
      root (clear A) = Nullptr)"
  by (simp add: copy_construct_result BinaryTree_new_def clear_def)

theorem copy_construct_round_trip_witness:
  "copy_construct tree12345 = Inr tree12345 \<and>
   copy_construct (BinaryTree_new :: int BinaryTree) = Inl NullDereference"
  using copy_construct_round_trip [of tree12345, where 'a = int]
  by (simp add: tree12345_def)

text \<open>
  Claim C6 (move empties source).  Move-constructing from a non-empty tree returns a tree with
  the nodes and the size of the source, and leaves the source empty.  Move-constructing from the
  empty tree does not return, for the same reason as the copy constructor.
\<close>

theorem move_construct_empties_source:
  "move_construct (BinaryTree_new :: 'a BinaryTree) = Inl NullDereference \<and>
   (root A \<noteq> Nullptr \<longrightarrow>
      move_construct A =
        Inr (\<lparr>root = root A, treeSize = int (count_nodes (root A))\<rparr>, clear A) \<and>
      empty_bt (clear A) \<and> root (clear A) = Nullptr)"
  by (simp add: move_construct_result BinaryTree_new_def clear_def empty_bt_def)

theorem move_construct_empties_source_witness:
  "move_construct tree12345 = Inr (tree12345, BinaryTree_new) \<and>
   move_construct (BinaryTree_new :: int BinaryTree) = Inl NullDereference"
  using move_construct_empties_source [of tree12345, where 'a = int]
  by (simp add: tree12345_def BinaryTree_new_def clear_def)

section \<open>Size consistency\<close>

lemma insert_loop_result:
  "positioned rt q \<Longrightarrow> q \<noteq> [] \<Longrightarrow>
   insert_loop e q rt = Inr Returned \<or>
   (\<exists>p d. insert_loop e q rt = Inr (Broke (store (p @ [d]) (Node e Nullptr Nullptr) rt)) \<and>
          node_at rt p \<noteq> Nullptr \<and> node_at rt (p @ [d]) = Nullptr)"
proof (induction e q rt rule: insert_loop.induct)
  case (1 e rt)
  then show ?case by simp
next
  case (2 e p q rt)
  then show ?case by simp
next
  case (3 e p x l r q rt)
  have at: "node_at rt p = Node x l r" using 3(2) by simp
  show ?case
  proof (cases l)
    case Nullptr
    have "node_at rt (p @ [LeftLink]) = Nullptr"
      using at Nullptr by (simp add: node_at_append)
    then show ?thesis
      using at Nullptr by (intro disjI2 exI[of _ p] exI[of _ LeftLink]) simp
  next
    case ln: (Node lx ll lr)
    show ?thesis
    proof (cases "lx = e")
      case True
      then show ?thesis using ln by simp
    next
      case lne: False
      show ?thesis
      proof (cases r)
        case Nullptr
        have "node_at rt (p @ [RightLink]) = Nullptr"
          using at Nullptr by (simp add: node_at_append)
        then show ?thesis
          using at Nullptr ln lne by (intro disjI2 exI[of _ p] exI[of _ RightLink]) simp
      next
        case rn: (Node rx rl rr)
        show ?thesis
        proof (cases "rx = e")
          case True
          then show ?thesis using ln lne rn by simp
        next
          case rne: False
          have pos: "positioned rt (q @ [(p @ [LeftLink], l), (p @ [RightLink], r)])"
            using 3(2) at ln rn by (simp add: node_at_append)
          have "insert_loop e ((p, Node x l r) # q) rt =
                insert_loop e (q @ [(p @ [LeftLink], l), (p @ [RightLink], r)]) rt"
            using ln lne rn rne by simp
          then show ?thesis
            using 3(1)[OF ln lne rn rne pos] by simp
        qed
      qed
    qed
  qed
qed

text \<open>The invariant of the class: the counter is the number of nodes, \<open>empty\<close> agrees with the
  counter, and the root is null exactly when the counter is 0.\<close>

definition size_consistent :: "'a BinaryTree \<Rightarrow> bool" where
  "size_consistent t \<longleftrightarrow>
     size_bt t = int (count_nodes (root t)) \<and>
     (empty_bt t \<longleftrightarrow> size_bt t = 0) \<and>
     (root t = Nullptr \<longleftrightarrow> size_bt t = 0)"

lemma size_consistent_iff: "size_consistent t \<longleftrightarrow> treeSize t = int (count_nodes (root t))"
  by (auto simp add: size_consistent_def size_bt_def empty_bt_def)

lemma insert_bt_consistent:
  assumes "size_consistent t"
  shows "\<exists>t'. insert_bt e t = Inr t' \<and> size_consistent t'"
proof (cases "root t")
  case Nullptr
  then show ?thesis
    using assms by (simp add: insert_bt_def size_consistent_iff)
next
  case (Node x l r)
  show ?thesis
  proof (cases "x = e")
    case True
    then show ?thesis using assms Node by (simp add: insert_bt_def)
  next
    case False
    have pos: "positioned (root t) [([], root t)]" using Node by simp
    from insert_loop_result[OF pos, of e]
    consider "insert_loop e [([], root t)] (root t) = Inr Returned"
      | p d where "insert_loop e [([], root t)] (root t)
                     = Inr (Broke (store (p @ [d]) (Node e Nullptr Nullptr) (root t)))"
          "node_at (root t) p \<noteq> Nullptr" "node_at (root t) (p @ [d]) = Nullptr"
      by blast
    then show ?thesis
    proof cases
      case 1
      then show ?thesis using assms Node False by (simp add: insert_bt_def)
    next
      case 2
      have "count_nodes (store (p @ [d]) (Node e Nullptr Nullptr) (root t)) = count_nodes (root t) + 1"
        using count_store_child[OF 2(2), of d "Node e Nullptr Nullptr"] 2(3) by simp
      then show ?thesis
        using assms Node False 2(1) by (simp add: insert_bt_def size_consistent_iff)
    qed
  qed
qed

lemma remove_consistent:
  assumes "size_consistent t"
  shows "\<exists>t'. remove e t = Inr t' \<and> size_consistent t'"
proof (cases "e \<in> set_node (root t)")
  case False
  then show ?thesis using assms by (simp add: remove_absent)
next
  case True
  show ?thesis
  proof (cases "children ([], root t) = []")
    case c: True
    obtain x where rt: "root t = Node x Nullptr Nullptr"
      using True c by (cases "root t") (auto split: if_splits)
    then have "x = e" using True by simp
    then show ?thesis
      using remove_single[OF rt] by (simp add: clear_def size_consistent_iff)
  next
    case c: False
    define w where "w = store (fst (last (level_order [([], root t)]))) Nullptr
                (assign_element
                  (fst (last (filter (\<lambda>pn. element (snd pn) = e) (level_order [([], root t)]))))
                  (element (snd (last (level_order [([], root t)])))) (root t))"
    have r: "remove e t = Inr (t\<lparr>root := w, treeSize := treeSize t - 1\<rparr>)"
      unfolding w_def by (rule remove_present[OF True c])
    have "count_nodes w + 1 = count_nodes (root t)"
      unfolding w_def by (rule excised_leaf(3)[OF c])
    then have "treeSize t - 1 = int (count_nodes w)"
      using assms by (simp add: size_consistent_iff)
    then show ?thesis
      using r by (simp add: size_consistent_iff)
  qed
qed

lemma count_invert [simp]: "count_nodes (invert n) = count_nodes n"
  by (induction n) simp_all

section \<open>Trees built by inserts only\<close>

text \<open>
  The complete binary tree filled in level order with the elements of a list, in the layout of an
  array-backed tree: the subtree rooted at index \<open>i\<close> holds element \<open>i\<close> and has the subtrees
  rooted at \<open>2i+1\<close> and \<open>2i+2\<close> as children; an index outside the list is no node.  This
  definition follows the words of the specification, not the code.
\<close>

function heap_tree :: "'a list \<Rightarrow> nat \<Rightarrow> 'a node" where
  "heap_tree xs i =
     (if i < length xs then Node (xs ! i) (heap_tree xs (2 * i + 1)) (heap_tree xs (2 * i + 2))
      else Nullptr)"
  by pat_completeness auto
termination
  by (relation "measure (\<lambda>(xs, i). length xs - i)") auto

declare heap_tree.simps [simp del]

lemma heap_tree_in:
  "i < length xs \<Longrightarrow>
   heap_tree xs i = Node (xs ! i) (heap_tree xs (2 * i + 1)) (heap_tree xs (2 * i + 2))"
  by (subst heap_tree.simps) simp

lemma heap_tree_out: "length xs \<le> i \<Longrightarrow> heap_tree xs i = Nullptr"
  by (subst heap_tree.simps) simp

text \<open>The index reached from index \<open>i\<close> along a path, and the path from the root to an index.\<close>

fun child_index :: "link \<Rightarrow> nat \<Rightarrow> nat" where
  "child_index LeftLink i = 2 * i + 1"
| "child_index RightLink i = 2 * i + 2"

fun index_from :: "nat \<Rightarrow> path \<Rightarrow> nat" where
  "index_from i [] = i"
| "index_from i (d # p) = index_from (child_index d i) p"

function path_of :: "nat \<Rightarrow> path" where
  "path_of 0 = []"
| "path_of (Suc m) = path_of (m div 2) @ [if even m then LeftLink else RightLink]"
  by pat_completeness auto
termination
  by (relation "measure id") auto

lemma path_of_left: "path_of (2 * i + 1) = path_of i @ [LeftLink]"
  using path_of.simps(2)[of "2 * i"] by simp

lemma path_of_right: "path_of (2 * i + 2) = path_of i @ [RightLink]"
  using path_of.simps(2)[of "2 * i + 1"] by simp

lemma index_from_append: "index_from i (p @ q) = index_from (index_from i p) q"
  by (induction p arbitrary: i) simp_all

lemma index_from_path_of: "index_from 0 (path_of n) = n"
proof (induction n rule: path_of.induct)
  case 1
  then show ?case by simp
next
  case (2 m)
  then show ?case by (auto simp add: index_from_append elim: evenE oddE)
qed

lemma child_index_gt: "i < child_index d i"
  by (cases d) simp_all

lemma index_from_ge: "i \<le> index_from i p"
proof (induction p arbitrary: i)
  case Nil
  then show ?case by simp
next
  case (Cons d p)
  have "i < child_index d i" by (rule child_index_gt)
  also have "\<dots> \<le> index_from (child_index d i) p" by (rule Cons.IH)
  finally show ?case by simp
qed

lemma child_index_inj: "child_index d a = child_index d' b \<Longrightarrow> d = d' \<and> a = b"
  by (cases d; cases d') (simp_all, presburger+)

lemma index_from_inj: "index_from i p = index_from i q \<Longrightarrow> p = q"
proof (induction p arbitrary: q rule: rev_induct)
  case Nil
  show ?case
  proof (cases q rule: rev_cases)
    case Nil
    then show ?thesis by simp
  next
    case (snoc q' d)
    have "i \<le> index_from i q'" by (rule index_from_ge)
    also have "\<dots> < child_index d (index_from i q')" by (rule child_index_gt)
    finally show ?thesis using Nil snoc by (simp add: index_from_append)
  qed
next
  case (snoc d p)
  show ?case
  proof (cases q rule: rev_cases)
    case Nil
    have "i \<le> index_from i p" by (rule index_from_ge)
    also have "\<dots> < child_index d (index_from i p)" by (rule child_index_gt)
    finally show ?thesis using snoc.prems Nil by (simp add: index_from_append)
  next
    case q: (snoc q' d')
    have "child_index d (index_from i p) = child_index d' (index_from i q')"
      using snoc.prems q by (simp add: index_from_append)
    then have "d = d'" and "index_from i p = index_from i q'"
      using child_index_inj by blast+
    then show ?thesis using snoc.IH q by simp
  qed
qed

lemma heap_tree_unreached:
  "\<forall>p. index_from j p \<noteq> length ys \<Longrightarrow> heap_tree (ys @ [x]) j = heap_tree ys j"
proof (induction ys j rule: heap_tree.induct)
  case (1 ys j)
  have jn: "j \<noteq> length ys" using 1(3)[rule_format, of "[]"] by simp
  show ?case
  proof (cases "j < length ys")
    case True
    have l: "\<forall>p. index_from (2 * j + 1) p \<noteq> length ys"
      using 1(3)[rule_format, of "LeftLink # p" for p] by simp
    have r: "\<forall>p. index_from (2 * j + 2) p \<noteq> length ys"
      using 1(3)[rule_format, of "RightLink # p" for p] by simp
    show ?thesis
      using True 1(1)[OF True l] 1(2)[OF True r]
      by (simp add: heap_tree_in nth_append)
  next
    case False
    then show ?thesis using jn by (simp add: heap_tree_out)
  qed
qed

lemma store_heap_tree:
  "index_from i p = length ys \<Longrightarrow>
   store p (Node x Nullptr Nullptr) (heap_tree ys i) = heap_tree (ys @ [x]) i"
proof (induction p arbitrary: i)
  case Nil
  then show ?case by (simp add: heap_tree_in heap_tree_out)
next
  case (Cons d p)
  have reach: "index_from (child_index d i) p = length ys" using Cons.prems by simp
  have "child_index d i \<le> length ys" using index_from_ge[of "child_index d i" p] reach by simp
  then have i: "i < length ys" using child_index_gt[of i d] by simp
  have other: "\<forall>q. index_from (child_index d' i) q \<noteq> length ys" if "d' \<noteq> d" for d'
  proof (intro allI notI)
    fix q assume "index_from (child_index d' i) q = length ys"
    then have "index_from i (d' # q) = index_from i (d # p)" using Cons.prems by simp
    then show False using index_from_inj that by blast
  qed
  show ?case
  proof (cases d)
    case LeftLink
    have "heap_tree (ys @ [x]) (2 * i + 2) = heap_tree ys (2 * i + 2)"
      using heap_tree_unreached[OF other[of RightLink]] LeftLink by simp
    then show ?thesis
      using i LeftLink Cons.IH[OF reach] by (simp add: heap_tree_in nth_append)
  next
    case RightLink
    have "heap_tree (ys @ [x]) (2 * i + 1) = heap_tree ys (2 * i + 1)"
      using heap_tree_unreached[OF other[of LeftLink]] RightLink by simp
    then show ?thesis
      using i RightLink Cons.IH[OF reach] by (simp add: heap_tree_in nth_append)
  qed
qed


definition heap_entry :: "'a list \<Rightarrow> nat \<Rightarrow> path \<times> 'a node" where
  "heap_entry ys j = (path_of j, heap_tree ys j)"

lemma insert_loop_heap_tree:
  "x \<notin> set ys \<Longrightarrow> 2 * i < length ys \<Longrightarrow>
   insert_loop x (map (heap_entry ys) [i..<2 * i + 1]) rt
     = Inr (Broke (store (path_of (length ys)) (Node x Nullptr Nullptr) rt))"
proof (induction "length ys - i" arbitrary: i rule: less_induct)
  case less
  let ?n = "length ys"
  have i: "i < ?n" using less.prems(2) by simp
  have q: "map (heap_entry ys) [i..<2 * i + 1]
             = (path_of i, Node (ys ! i) (heap_tree ys (2 * i + 1)) (heap_tree ys (2 * i + 2)))
               # map (heap_entry ys) [i + 1..<2 * i + 1]"
  proof -
    have "[i..<2 * i + 1] = i # [i + 1..<2 * i + 1]"
      using upt_conv_Cons[of i "2 * i + 1"] by simp
    then show ?thesis
      using i by (simp only: list.map heap_entry_def heap_tree_in)
  qed
  show ?case
  proof (cases "2 * i + 1 < ?n")
    case False
    then have n: "?n = 2 * i + 1" using less.prems(2) by simp
    have "heap_tree ys (2 * i + 1) = Nullptr" using n by (simp add: heap_tree_out)
    then show ?thesis unfolding q by (simp add: n path_of_left)
  next
    case l: True
    have lx: "ys ! (2 * i + 1) \<noteq> x" using less.prems(1) l by (metis nth_mem)
    have hl: "heap_tree ys (2 * i + 1)
                = Node (ys ! (2 * i + 1)) (heap_tree ys (2 * (2 * i + 1) + 1))
                       (heap_tree ys (2 * (2 * i + 1) + 2))"
      using l by (rule heap_tree_in)
    show ?thesis
    proof (cases "2 * i + 2 < ?n")
      case False
      then have n: "?n = 2 * i + 2" using l by simp
      have "heap_tree ys (2 * i + 2) = Nullptr" using n by (simp add: heap_tree_out)
      then show ?thesis
        unfolding q using lx by (subst hl) (simp add: n path_of_right)
    next
      case r: True
      have rx: "ys ! (2 * i + 2) \<noteq> x" using less.prems(1) r by (metis nth_mem)
      have hr: "heap_tree ys (2 * i + 2)
                = Node (ys ! (2 * i + 2)) (heap_tree ys (2 * (2 * i + 2) + 1))
                       (heap_tree ys (2 * (2 * i + 2) + 2))"
        using r by (rule heap_tree_in)
      have nq: "map (heap_entry ys) [i + 1..<2 * i + 1]
                  @ [(path_of i @ [LeftLink], heap_tree ys (2 * i + 1)),
                     (path_of i @ [RightLink], heap_tree ys (2 * i + 2))]
                = map (heap_entry ys) [Suc i..<2 * Suc i + 1]"
      proof -
        have "[Suc i..<2 * i + 1 + 2] = [Suc i..<2 * i + 1] @ [2 * i + 1..<2 * i + 1 + 2]"
          by (rule upt_add_eq_append) simp
        moreover have "[2 * i + 1..<2 * i + 1 + 2] = [2 * i + 1, 2 * i + 2]"
          by (simp add: upt_conv_Cons)
        ultimately have "[Suc i..<2 * Suc i + 1] = [i + 1..<2 * i + 1] @ [2 * i + 1, 2 * i + 2]"
          by simp
        then show ?thesis
          by (simp add: heap_entry_def path_of_left path_of_right)
      qed
      have step: "insert_loop x (map (heap_entry ys) [i..<2 * i + 1]) rt
                  = insert_loop x (map (heap_entry ys) [Suc i..<2 * Suc i + 1]) rt"
        unfolding q nq[symmetric]
        using lx rx by (subst (1 2) hl, subst (1 2) hr) simp
      show ?thesis
        unfolding step using less.hyps[of "Suc i"] less.prems(1) r i by simp
    qed
  qed
qed


lemma insert_loop_heap_tree_duplicate:
  "2 * i < k \<Longrightarrow> k < length ys \<Longrightarrow> ys ! k = x \<Longrightarrow>
   insert_loop x (map (heap_entry ys) [i..<2 * i + 1]) rt = Inr Returned"
proof (induction "length ys - i" arbitrary: i rule: less_induct)
  case less
  let ?n = "length ys"
  have i: "i < ?n" and l: "2 * i + 1 < ?n" using less.prems by simp_all
  have q: "map (heap_entry ys) [i..<2 * i + 1]
             = (path_of i, Node (ys ! i) (heap_tree ys (2 * i + 1)) (heap_tree ys (2 * i + 2)))
               # map (heap_entry ys) [i + 1..<2 * i + 1]"
  proof -
    have "[i..<2 * i + 1] = i # [i + 1..<2 * i + 1]"
      using upt_conv_Cons[of i "2 * i + 1"] by simp
    then show ?thesis
      using i by (simp only: list.map heap_entry_def heap_tree_in)
  qed
  have hl: "heap_tree ys (2 * i + 1)
              = Node (ys ! (2 * i + 1)) (heap_tree ys (2 * (2 * i + 1) + 1))
                     (heap_tree ys (2 * (2 * i + 1) + 2))"
    using l by (rule heap_tree_in)
  show ?case
  proof (cases "ys ! (2 * i + 1) = x")
    case True
    then show ?thesis unfolding q by (subst hl) simp
  next
    case lx: False
    then have "k \<noteq> 2 * i + 1" using less.prems(3) by auto
    then have r: "2 * i + 2 < ?n" and k2: "2 * i + 2 \<le> k" using less.prems by simp_all
    have hr: "heap_tree ys (2 * i + 2)
              = Node (ys ! (2 * i + 2)) (heap_tree ys (2 * (2 * i + 2) + 1))
                     (heap_tree ys (2 * (2 * i + 2) + 2))"
      using r by (rule heap_tree_in)
    show ?thesis
    proof (cases "ys ! (2 * i + 2) = x")
      case True
      then show ?thesis unfolding q using lx by (subst hl, subst hr) simp
    next
      case rx: False
      then have k3: "2 * Suc i < k" using k2 less.prems(3) by (cases "k = 2 * i + 2") auto
      have nq: "map (heap_entry ys) [i + 1..<2 * i + 1]
                  @ [(path_of i @ [LeftLink], heap_tree ys (2 * i + 1)),
                     (path_of i @ [RightLink], heap_tree ys (2 * i + 2))]
                = map (heap_entry ys) [Suc i..<2 * Suc i + 1]"
      proof -
        have "[Suc i..<2 * i + 1 + 2] = [Suc i..<2 * i + 1] @ [2 * i + 1..<2 * i + 1 + 2]"
          by (rule upt_add_eq_append) simp
        moreover have "[2 * i + 1..<2 * i + 1 + 2] = [2 * i + 1, 2 * i + 2]"
          by (simp add: upt_conv_Cons)
        ultimately have "[Suc i..<2 * Suc i + 1] = [i + 1..<2 * i + 1] @ [2 * i + 1, 2 * i + 2]"
          by simp
        then show ?thesis
          by (simp add: heap_entry_def path_of_left path_of_right)
      qed
      have step: "insert_loop x (map (heap_entry ys) [i..<2 * i + 1]) rt
                  = insert_loop x (map (heap_entry ys) [Suc i..<2 * Suc i + 1]) rt"
        unfolding q nq[symmetric]
        using lx rx by (subst (1 2) hl, subst (1 2) hr) simp
      show ?thesis
        unfolding step using less.hyps[of "Suc i"] k3 less.prems(2,3) i by simp
    qed
  qed
qed

lemma heap_start: "[([], heap_tree ys 0)] = map (heap_entry ys) [0..<2 * 0 + 1]"
  by (simp add: heap_entry_def)

lemma insert_bt_heap_tree:
  assumes "x \<notin> set ys"
  shows "insert_bt x \<lparr>root = heap_tree ys 0, treeSize = int (length ys)\<rparr>
           = Inr \<lparr>root = heap_tree (ys @ [x]) 0, treeSize = int (length (ys @ [x]))\<rparr>"
proof (cases ys)
  case Nil
  then show ?thesis
    by (simp add: insert_bt_def heap_tree_in heap_tree_out)
next
  case (Cons y ys')
  then have n: "2 * 0 < length ys" by simp
  have rt: "heap_tree ys 0 = Node (ys ! 0) (heap_tree ys (2 * 0 + 1)) (heap_tree ys (2 * 0 + 2))"
    using n by (intro heap_tree_in) simp
  have ne: "ys ! 0 \<noteq> x" using assms Cons by auto
  have loop: "insert_loop x [([], heap_tree ys 0)] (heap_tree ys 0)
         = Inr (Broke (store (path_of (length ys)) (Node x Nullptr Nullptr) (heap_tree ys 0)))"
    unfolding heap_start by (rule insert_loop_heap_tree[OF assms n])
  have st: "store (path_of (length ys)) (Node x Nullptr Nullptr) (heap_tree ys 0)
              = heap_tree (ys @ [x]) 0"
    by (rule store_heap_tree) (rule index_from_path_of)
  have "insert_bt x \<lparr>root = heap_tree ys 0, treeSize = int (length ys)\<rparr>
          = Inr \<lparr>root = heap_tree (ys @ [x]) 0, treeSize = int (length ys) + 1\<rparr>"
    unfolding insert_bt_def BinaryTree.simps loop st
    using ne by (subst (1 2) rt) simp
  then show ?thesis by simp
qed

lemma insert_bt_heap_tree_duplicate:
  assumes "x \<in> set ys"
  shows "insert_bt x \<lparr>root = heap_tree ys 0, treeSize = n\<rparr>
           = Inr \<lparr>root = heap_tree ys 0, treeSize = n\<rparr>"
proof -
  obtain k where k: "k < length ys" "ys ! k = x"
    using assms by (auto simp: in_set_conv_nth)
  then have n: "0 < length ys" by auto
  have rt: "heap_tree ys 0 = Node (ys ! 0) (heap_tree ys (2 * 0 + 1)) (heap_tree ys (2 * 0 + 2))"
    using n by (intro heap_tree_in) simp
  show ?thesis
  proof (cases "ys ! 0 = x")
    case True
    then show ?thesis unfolding insert_bt_def BinaryTree.simps by (subst (1 2) rt) simp
  next
    case False
    then have "2 * 0 < k" using k by (cases k) auto
    then have loop: "insert_loop x [([], heap_tree ys 0)] (heap_tree ys 0) = Inr Returned"
      unfolding heap_start using k by (rule insert_loop_heap_tree_duplicate)
    show ?thesis
      unfolding insert_bt_def BinaryTree.simps loop
      using False by (subst (1 2) rt) simp
  qed
qed

lemma insert_all_heap_tree:
  "distinct (ys @ xs) \<Longrightarrow>
   insert_all xs \<lparr>root = heap_tree ys 0, treeSize = int (length ys)\<rparr>
     = Inr \<lparr>root = heap_tree (ys @ xs) 0, treeSize = int (length (ys @ xs))\<rparr>"
proof (induction xs arbitrary: ys)
  case Nil
  then show ?case by simp
next
  case (Cons x xs)
  have x: "x \<notin> set ys" and d: "distinct ((ys @ [x]) @ xs)" using Cons.prems by auto
  show ?case
    using Cons.IH[OF d] insert_bt_heap_tree[OF x] by simp
qed

lemma insert_all_consistent:
  "size_consistent t \<Longrightarrow> \<exists>t'. insert_all xs t = Inr t' \<and> size_consistent t'"
proof (induction xs arbitrary: t)
  case Nil
  then show ?case by simp
next
  case (Cons x xs)
  obtain t1 where t1: "insert_bt x t = Inr t1" "size_consistent t1"
    using insert_bt_consistent[OF Cons.prems] by blast
  then show ?case using Cons.IH[OF t1(2)] by simp
qed

lemma heap_tree_empty: "heap_tree [] 0 = Nullptr"
  by (simp add: heap_tree_out)

lemma inserts_from_new:
  assumes "distinct xs"
  shows "insert_all xs BinaryTree_new = Inr \<lparr>root = heap_tree xs 0, treeSize = int (length xs)\<rparr>"
  using insert_all_heap_tree[of "[]" xs] assms
  by (simp add: BinaryTree_new_def heap_tree_empty)

lemma count_heap_tree:
  assumes "distinct xs"
  shows "count_nodes (heap_tree xs 0) = length xs"
proof -
  have "size_consistent (BinaryTree_new :: 'a BinaryTree)"
    by (simp add: size_consistent_iff BinaryTree_new_def)
  then obtain t' where "insert_all xs (BinaryTree_new :: 'a BinaryTree) = Inr t'" "size_consistent t'"
    using insert_all_consistent by blast
  then show ?thesis
    using inserts_from_new[OF assms] by (auto simp add: size_consistent_iff)
qed

lemma heap_tree_null_iff: "heap_tree ys j = Nullptr \<longleftrightarrow> length ys \<le> j"
  by (subst heap_tree.simps) simp

lemma children_heap_entry:
  "i < length ys \<Longrightarrow>
   children (heap_entry ys i) =
     map (heap_entry ys) [2 * i + 1..<min (2 * i + 3) (length ys)]"
proof -
  assume i: "i < length ys"
  have c: "children (heap_entry ys i) =
      (if 2 * i + 1 < length ys then [heap_entry ys (2 * i + 1)] else []) @
      (if 2 * i + 2 < length ys then [heap_entry ys (2 * i + 2)] else [])"
    using i by (simp add: heap_entry_def heap_tree_in heap_tree_null_iff path_of_left path_of_right
        not_le)
  consider "length ys \<le> 2 * i + 1" | "length ys = 2 * i + 2" | "2 * i + 3 \<le> length ys"
    by linarith
  then show ?thesis
  proof cases
    case 1
    then show ?thesis unfolding c by simp
  next
    case 2
    then have "[2 * i + 1..<min (2 * i + 3) (length ys)] = [2 * i + 1]"
      by (simp add: upt_conv_Cons)
    then show ?thesis unfolding c using 2 by simp
  next
    case 3
    then have "[2 * i + 1..<min (2 * i + 3) (length ys)] = [2 * i + 1, 2 * i + 2]"
      by (simp add: upt_conv_Cons min_def)
    then show ?thesis unfolding c using 3 by simp
  qed
qed

lemma upt_split: "a \<le> b \<Longrightarrow> b \<le> c \<Longrightarrow> [a..<b] @ [b..<c] = [a..<c]"
  by (metis le_Suc_ex upt_add_eq_append)

lemma level_order_heap_entries:
  "level_order (map (heap_entry ys) [i..<min (2 * i + 1) (length ys)])
     = map (heap_entry ys) [i..<length ys]"
proof (induction "length ys - i" arbitrary: i rule: less_induct)
  case less
  show ?case
  proof (cases "i < length ys")
    case False
    then show ?thesis by simp
  next
    case True
    let ?n = "length ys"
    have q: "[i..<min (2 * i + 1) ?n] = i # [Suc i..<min (2 * i + 1) ?n]"
      using True by (intro upt_conv_Cons) simp
    have j: "[Suc i..<min (2 * i + 1) ?n] @ [2 * i + 1..<min (2 * i + 3) ?n]
               = [Suc i..<min (2 * Suc i + 1) ?n]"
    proof (cases "2 * i + 1 \<le> ?n")
      case a: True
      have m: "min (2 * i + 1) ?n = 2 * i + 1" "min (2 * Suc i + 1) ?n = min (2 * i + 3) ?n"
        using a by simp_all
      show ?thesis
        unfolding m using a by (intro upt_split) simp_all
    next
      case False
      then show ?thesis by (simp add: min_def)
    qed
    have "level_order (map (heap_entry ys) [i..<min (2 * i + 1) ?n])
            = heap_entry ys i # level_order (map (heap_entry ys) [Suc i..<min (2 * Suc i + 1) ?n])"
      unfolding q list.map level_order.simps children_heap_entry[OF True] map_append[symmetric] j ..
    also have "\<dots> = heap_entry ys i # map (heap_entry ys) [Suc i..<?n]"
      using less.hyps[of "Suc i"] True by simp
    also have "\<dots> = map (heap_entry ys) [i..<?n]"
      using True by (simp add: upt_conv_Cons)
    finally show ?thesis .
  qed
qed

lemma level_order_heap_tree:
  assumes "xs \<noteq> []"
  shows "map (\<lambda>pn. element (snd pn)) (level_order [([], heap_tree xs 0)]) = xs"
proof -
  have "min (2 * 0 + 1) (length xs) = 1" using assms by (cases xs) simp_all
  then have "[0..<min (2 * 0 + 1) (length xs)] = [0]" by simp
  then have "level_order [([], heap_tree xs 0)] = map (heap_entry xs) [0..<length xs]"
    using level_order_heap_entries[of xs 0] by (simp add: heap_entry_def)
  moreover have "map (\<lambda>pn. element (snd pn)) (map (heap_entry xs) [0..<length xs]) = xs"
    by (rule nth_equalityI) (simp_all add: heap_entry_def heap_tree_in)
  ultimately show ?thesis by simp
qed

text \<open>
  Claim C2 (structural completeness).  Starting from the empty tree, inserting the elements of
  a list of pairwise distinct elements one after the other returns without error the complete
  tree of that many nodes filled in level order: the node with index \<open>i\<close> holds the \<open>i\<close>-th
  element inserted and has the nodes with indices \<open>2i+1\<close> and \<open>2i+2\<close> as children, exactly when
  those indices are below the number of elements.  The size is the number of elements, which is
  the number of nodes, and reading the tree in level order gives back the list.
\<close>

theorem inserts_build_complete_tree:
  "distinct xs \<longrightarrow>
     insert_all xs BinaryTree_new = Inr \<lparr>root = heap_tree xs 0, treeSize = int (length xs)\<rparr> \<and>
     size_bt \<lparr>root = heap_tree xs 0, treeSize = int (length xs)\<rparr> = int (length xs) \<and>
     count_nodes (heap_tree xs 0) = length xs \<and>
     (xs \<noteq> [] \<longrightarrow> map (\<lambda>pn. element (snd pn)) (level_order [([], heap_tree xs 0)]) = xs)"
  using level_order_heap_tree[of xs]
  by (simp add: inserts_from_new count_heap_tree size_bt_def del: level_order.simps)

theorem inserts_build_complete_tree_witness:
  "insert_all [10, 20, 30, 40, 50, 60] BinaryTree_new
     = Inr \<lparr>root = Node 10 (Node 20 (Node 40 Nullptr Nullptr) (Node 50 Nullptr Nullptr))
                            (Node (30::int) (Node 60 Nullptr Nullptr) Nullptr),
            treeSize = 6\<rparr>"
proof -
  have h: "heap_tree [10, 20, 30, 40, 50, 60::int] 0
     = Node 10 (Node 20 (Node 40 Nullptr Nullptr) (Node 50 Nullptr Nullptr))
               (Node 30 (Node 60 Nullptr Nullptr) Nullptr)"
    by (simp add: heap_tree.simps)
  show ?thesis
    using inserts_build_complete_tree [of "[10, 20, 30, 40, 50, 60::int]"]
    unfolding h by simp
qed

section \<open>Reachable states\<close>

text \<open>
  The states a tree object can be in: a new tree, and what the public operations make of
  reachable trees when they return.  The two-object operations take both objects from the
  reachable states and contribute the states of both afterwards.
\<close>

inductive reachable :: "'a BinaryTree \<Rightarrow> bool" where
  r_new: "reachable BinaryTree_new"
| r_insert: "reachable t \<Longrightarrow> insert_bt e t = Inr t' \<Longrightarrow> reachable t'"
| r_remove: "reachable t \<Longrightarrow> remove e t = Inr t' \<Longrightarrow> reachable t'"
| r_clear: "reachable t \<Longrightarrow> reachable (clear t)"
| r_invertTree: "reachable t \<Longrightarrow> reachable (invertTree t)"
| r_copy_construct: "reachable t \<Longrightarrow> copy_construct t = Inr t' \<Longrightarrow> reachable t'"
| r_move_construct: "reachable t \<Longrightarrow> move_construct t = Inr (t', s) \<Longrightarrow> reachable t'"
| r_moved_from: "reachable t \<Longrightarrow> move_construct t = Inr (t', s) \<Longrightarrow> reachable s"
| r_copy_assign:
    "reachable this \<Longrightarrow> reachable other \<Longrightarrow> copy_assign this other = Inr t' \<Longrightarrow> reachable t'"
| r_move_assign:
    "reachable this \<Longrightarrow> reachable other \<Longrightarrow> move_assign this other = (t', s) \<Longrightarrow> reachable t'"
| r_move_assigned_from:
    "reachable this \<Longrightarrow> reachable other \<Longrightarrow> move_assign this other = (t', s) \<Longrightarrow> reachable s"

lemma reachable_insert_all: "reachable t \<Longrightarrow> insert_all xs t = Inr t' \<Longrightarrow> reachable t'"
proof (induction xs arbitrary: t)
  case Nil
  then show ?case by simp
next
  case (Cons x xs)
  then show ?case by (auto split: sum.splits intro: r_insert)
qed

lemma clear_consistent: "size_consistent (clear t)"
  by (simp add: size_consistent_iff clear_def)

lemma invertTree_consistent: "size_consistent t \<Longrightarrow> size_consistent (invertTree t)"
  by (simp add: size_consistent_iff invertTree_def)

lemma copy_construct_consistent: "copy_construct t = Inr t' \<Longrightarrow> size_consistent t'"
  by (auto simp add: copy_construct_result size_consistent_iff split: if_splits)

lemma move_construct_consistent:
  "move_construct t = Inr (t', s) \<Longrightarrow> size_consistent t' \<and> size_consistent s"
  by (auto simp add: move_construct_result size_consistent_iff clear_def split: if_splits)

lemma copy_assign_consistent: "copy_assign this other = Inr t' \<Longrightarrow> size_consistent t'"
  by (auto simp add: copy_assign_def copy_construct_result swap_def size_consistent_iff
      split: if_splits)

lemma move_assign_consistent:
  "size_consistent other \<Longrightarrow>
   size_consistent (fst (move_assign this other)) \<and> size_consistent (snd (move_assign this other))"
  by (simp add: move_assign_def swap_def clear_def size_consistent_iff)

lemma reachable_consistent: "reachable t \<Longrightarrow> size_consistent t"
proof (induction rule: reachable.induct)
  case r_new
  then show ?case by (simp add: size_consistent_iff BinaryTree_new_def)
next
  case (r_insert t e t')
  then show ?case using insert_bt_consistent[of t e] by auto
next
  case (r_remove t e t')
  then show ?case using remove_consistent[of t e] by auto
next
  case (r_clear t)
  then show ?case by (simp add: clear_consistent)
next
  case (r_invertTree t)
  then show ?case by (simp add: invertTree_consistent)
next
  case (r_copy_construct t t')
  then show ?case by (simp add: copy_construct_consistent)
next
  case (r_move_construct t t' s)
  then show ?case using move_construct_consistent by blast
next
  case (r_moved_from t t' s)
  then show ?case using move_construct_consistent by blast
next
  case (r_copy_assign this other t')
  then show ?case using copy_assign_consistent by blast
next
  case (r_move_assign this other t' s)
  then show ?case using move_assign_consistent[of other this] by simp
next
  case (r_move_assigned_from this other t' s)
  then show ?case using move_assign_consistent[of other this] by simp
qed

text \<open>
  Claim C4 (size consistency).  In every reachable state \<open>size()\<close> is the number of nodes
  below the root, \<open>empty()\<close> is true exactly when \<open>size()\<close> is 0, and the root is null exactly
  when \<open>size()\<close> is 0.  Every operation keeps this: \<open>insert\<close> and \<open>remove\<close> return, and return
  a consistent tree; so do \<open>clear\<close> and \<open>invertTree\<close>; the copy and move constructors and the
  two assignments leave every object they return or touch consistent.
\<close>

theorem size_consistency:
  "(reachable t \<longrightarrow> size_consistent t) \<and>
   (size_consistent t \<longrightarrow>
      (\<exists>t'. insert_bt e t = Inr t' \<and> size_consistent t') \<and>
      (\<exists>t'. remove e t = Inr t' \<and> size_consistent t') \<and>
      size_consistent (clear t) \<and>
      size_consistent (invertTree t) \<and>
      (\<forall>t'. copy_construct t = Inr t' \<longrightarrow> size_consistent t') \<and>
      (\<forall>t' s. move_construct t = Inr (t', s) \<longrightarrow> size_consistent t' \<and> size_consistent s) \<and>
      (\<forall>this t'. copy_assign this t = Inr t' \<longrightarrow> size_consistent t') \<and>
      (\<forall>this. size_consistent (fst (move_assign this t)) \<and>
              size_consistent (snd (move_assign this t))))"
  using reachable_consistent[of t] insert_bt_consistent[of t e] remove_consistent[of t e]
    clear_consistent[of t] invertTree_consistent[of t] copy_construct_consistent[of t]
    move_construct_consistent[of t] copy_assign_consistent[of _ t] move_assign_consistent[of t]
  by blast

theorem size_consistency_witness:
  "reachable tree12345 \<and> size_bt tree12345 = 5 \<and> \<not> empty_bt tree12345 \<and>
   count_nodes (root tree12345) = 5"
proof -
  have "insert_all [1, 2, 3, 4, 5] BinaryTree_new = Inr tree12345"
    by (simp add: insert_bt_def BinaryTree_new_def tree12345_def)
  then have r: "reachable tree12345"
    using reachable_insert_all[OF r_new] by blast
  have "size_bt tree12345 = 5" by (simp add: size_bt_def tree12345_def)
  then show ?thesis
    using size_consistency [of tree12345] r by (simp add: size_consistent_def)
qed

section \<open>Inserting an element that is already stored\<close>

text \<open>The tree of the inserts 1, 2 and its mirror image.\<close>

definition tree12 :: "int BinaryTree" where
  "tree12 = \<lparr>root = Node 1 (Node 2 Nullptr Nullptr) Nullptr, treeSize = 2\<rparr>"

definition tree12_inverted :: "int BinaryTree" where
  "tree12_inverted = \<lparr>root = Node 1 Nullptr (Node 2 Nullptr Nullptr), treeSize = 2\<rparr>"

lemma reachable_tree12_inverted: "reachable tree12_inverted"
proof -
  have "insert_all [1, 2] BinaryTree_new = Inr tree12"
    by (simp add: insert_bt_def BinaryTree_new_def tree12_def)
  then have "reachable tree12"
    using reachable_insert_all[OF r_new] by blast
  then have "reachable (invertTree tree12)" by (rule r_invertTree)
  then show ?thesis by (simp add: invertTree_def tree12_def tree12_inverted_def)
qed

text \<open>
  Claim C3 (duplicate rejection).  \<open>insert\<close> compares the element only with the nodes it meets
  before the first free link.  The tree of the inserts 1, 2 after \<open>invertTree\<close> is reachable
  and stores 2 in the right child of the root; its left link is free and is met first, so
  \<open>insert 2\<close> adds a second node holding 2 and the size becomes 3.  On a tree built by inserts
  only (a complete tree) inserting a stored element returns the tree as it was.
\<close>

theorem duplicate_insert:
  "reachable tree12_inverted \<and>
   invertTree tree12 = tree12_inverted \<and>
   2 \<in> set_node (root tree12_inverted) \<and>
   insert_bt 2 tree12_inverted
     = Inr \<lparr>root = Node 1 (Node 2 Nullptr Nullptr) (Node 2 Nullptr Nullptr), treeSize = 3\<rparr> \<and>
   (x \<in> set xs \<longrightarrow>
      insert_bt x \<lparr>root = heap_tree xs 0, treeSize = n\<rparr>
        = Inr \<lparr>root = heap_tree xs 0, treeSize = n\<rparr>)"
  using reachable_tree12_inverted insert_bt_heap_tree_duplicate[of x xs n]
  by (simp add: invertTree_def tree12_def tree12_inverted_def insert_bt_def)

theorem duplicate_insert_witness:
  "insert_bt 2 tree12 = Inr tree12 \<and>
   insert_bt 2 tree12_inverted \<noteq> Inr tree12_inverted"
proof -
  have h: "heap_tree [1, 2::int] 0 = Node 1 (Node 2 Nullptr Nullptr) Nullptr"
    by (simp add: heap_tree.simps)
  show ?thesis
    using duplicate_insert [of "2::int" "[1, 2]" 2]
    unfolding h by (simp add: tree12_def tree12_inverted_def)
qed

end
